theory Spec2Isabelle
  imports Main
begin

section \<open>Python strings and the built-ins the extractors rely on\<close>

text \<open>
  A Python \<open>str\<close> is a sequence of Unicode code points; it is modelled as the list of
  its code points. The literals of the sources are written by code point:
  the Tibetan digits U+0F20 .. U+0F29 are 3872 .. 3881, the closing bracket U+0F3D is 3901,
  the opening bracket U+0F3C is 3900, the tseg U+0F0B is 3851, the shad U+0F0D is 3853.
\<close>

type_synonym ustr = "nat list"

datatype error = ValueError | IndexError

text \<open>\<open>str.isspace\<close> on one code point, which is also the class \<open>\s\<close> of \<open>re\<close> on a \<open>str\<close>
  pattern and the set that \<open>str.strip()\<close> removes.\<close>

definition isspace :: "nat \<Rightarrow> bool" where
  "isspace c \<longleftrightarrow>
     (9 \<le> c \<and> c \<le> 13) \<or> (28 \<le> c \<and> c \<le> 32) \<or> c = 133 \<or> c = 160 \<or> c = 5760 \<or>
     (8192 \<le> c \<and> c \<le> 8202) \<or> c = 8232 \<or> c = 8233 \<or> c = 8239 \<or> c = 8287 \<or> c = 12288"

definition lstrip :: "ustr \<Rightarrow> ustr" where
  "lstrip s = dropWhile isspace s"

definition rstrip :: "ustr \<Rightarrow> ustr" where
  "rstrip s = rev (dropWhile isspace (rev s))"

definition strip :: "ustr \<Rightarrow> ustr" where
  "strip s = rstrip (lstrip s)"

text \<open>\<open>str(n)\<close> on an \<open>int\<close>: the decimal digits, most significant first, after a
  minus sign when the number is negative.\<close>

function str_nat :: "nat \<Rightarrow> ustr" where
  "str_nat n = (if n < 10 then [48 + n] else str_nat (n div 10) @ [48 + n mod 10])"
  by pat_completeness auto
termination
  by (relation "measure id") auto

definition str_int :: "int \<Rightarrow> ustr" where
  "str_int i = (if i < 0 then 45 # str_nat (nat (- i)) else str_nat (nat i))"

text \<open>\<open>int(d)\<close> on a one-character string, for the characters \<open>str\<close> produces: an
  ASCII digit is its value, the minus sign alone raises \<open>ValueError\<close>.\<close>

definition int_of_char :: "nat \<Rightarrow> error + nat" where
  "int_of_char d = (if 48 \<le> d \<and> d \<le> 57 then Inr (d - 48) else Inl ValueError)"

text \<open>\<open>s[i]\<close> for a non-negative index.\<close>

definition index :: "'a list \<Rightarrow> nat \<Rightarrow> error + 'a" where
  "index s i = (if i < length s then Inr (s ! i) else Inl IndexError)"

section \<open>Numeral encoder\<close>

definition TIBETAN_DIGITS :: ustr where
  "TIBETAN_DIGITS = [3872, 3873, 3874, 3875, 3876, 3877, 3878, 3879, 3880, 3881]"

definition closing_glyph :: nat where
  "closing_glyph = 3901"

text \<open>The generator \<open>TIBETAN_DIGITS[int(d)] for d in str(num)\<close> joined by \<open>"".join\<close>;
  the first exception raised by an element ends the whole expression.\<close>

fun join_digits :: "ustr \<Rightarrow> error + ustr" where
  "join_digits [] = Inr []"
| "join_digits (d # ds) =
     (case int_of_char d of
        Inl e \<Rightarrow> Inl e
      | Inr i \<Rightarrow>
          (case index TIBETAN_DIGITS i of
             Inl e \<Rightarrow> Inl e
           | Inr g \<Rightarrow> (case join_digits ds of Inl e \<Rightarrow> Inl e | Inr r \<Rightarrow> Inr (g # r))))"

text \<open>\<open>TibetanTextProcessor.int_to_tibetan_numeral\<close> (qa_2.py, qa_3.py): the
  \<open>except (ValueError, IndexError)\<close> clause raises \<open>ValueError\<close> again.\<close>

definition int_to_tibetan_numeral :: "int \<Rightarrow> error + ustr" where
  "int_to_tibetan_numeral num =
     (case join_digits (str_int num) of Inl e \<Rightarrow> Inl ValueError | Inr s \<Rightarrow> Inr s)"

text \<open>\<open>convert_to_tibetan_number\<close> (qa.py) and \<open>get_tibetan_number\<close> (html_parser.py):
  no handler, and the closing bracket appended.\<close>

definition convert_to_tibetan_number :: "int \<Rightarrow> error + ustr" where
  "convert_to_tibetan_number n =
     (case join_digits (str_int n) of Inl e \<Rightarrow> Inl e | Inr s \<Rightarrow> Inr (s @ [closing_glyph]))"

text \<open>The specification's reading of the encoder: the base-10 digits of \<open>n\<close> in their
  original order, each sent through the ten-symbol alphabet.\<close>

function base10_digits :: "nat \<Rightarrow> nat list" where
  "base10_digits n = (if n < 10 then [n] else base10_digits (n div 10) @ [n mod 10])"
  by pat_completeness auto
termination
  by (relation "measure id") auto


definition encode_spec :: "nat \<Rightarrow> ustr" where
  "encode_spec n = map (\<lambda>d. TIBETAN_DIGITS ! d) (base10_digits n)"

section \<open>Text normalizer (qa.py)\<close>

text \<open>\<open>re.sub(r"\s+", " ", s)\<close>: every maximal run of whitespace becomes one space.\<close>

function sub_ws :: "ustr \<Rightarrow> ustr" where
  "sub_ws [] = []"
| "sub_ws (c # cs) =
     (if isspace c then 32 # sub_ws (dropWhile isspace cs) else c # sub_ws cs)"
  by pat_completeness auto
termination
  by (relation "measure length") (auto simp: le_imp_less_Suc length_dropWhile_le)

definition clean_tibetan_text :: "ustr \<Rightarrow> ustr" where
  "clean_tibetan_text text = sub_ws (strip text)"

text \<open>Every whitespace character of a string is a single space standing alone.\<close>

fun single_spaced :: "ustr \<Rightarrow> bool" where
  "single_spaced [] = True"
| "single_spaced (c # cs) =
     (if isspace c then c = 32 \<and> (cs = [] \<or> \<not> isspace (hd cs)) \<and> single_spaced cs
      else single_spaced cs)"

section \<open>Corpus aggregator (combine_q_n_a.py)\<close>


text \<open>\<open>s.startswith(pre)\<close>.\<close>

definition startswith :: "ustr \<Rightarrow> ustr \<Rightarrow> bool" where
  "startswith s pre \<longleftrightarrow> take (length pre) s = pre"

text \<open>\<open>s.replace(old, new)\<close> for a non-empty \<open>old\<close> (every call in the sources passes a
  non-empty one): the occurrences are found from the left and do not overlap.\<close>

function replace_all :: "ustr \<Rightarrow> ustr \<Rightarrow> ustr \<Rightarrow> ustr" where
  "replace_all old new [] = []"
| "replace_all old new (c # cs) =
     (if old \<noteq> [] \<and> startswith (c # cs) old
      then new @ replace_all old new (drop (length old) (c # cs))
      else c # replace_all old new cs)"
  by pat_completeness auto
termination
  by (relation "measure (\<lambda>(old, new, s). length s)") auto

text \<open>\<open>s.split(" ", 1)\<close>: at most one split, at the first space U+0020.\<close>

definition split_space_1 :: "ustr \<Rightarrow> ustr list" where
  "split_space_1 s =
     (if 32 \<in> set s
      then [takeWhile (\<lambda>c. c \<noteq> 32) s, tl (dropWhile (\<lambda>c. c \<noteq> 32) s)]
      else [s])"

text \<open>\<open>line.split(" ", 1)[-1]\<close>, the aggregator's removal of the index token.\<close>

definition strip_index_token :: "ustr \<Rightarrow> ustr" where
  "strip_index_token line = last (split_space_1 line)"




record qa_record =
  question :: ustr
  answer :: ustr
  filename :: ustr



text \<open>The inner loop \<open>for i in range(record_count)\<close>.\<close>

definition pair_records :: "ustr \<Rightarrow> ustr list \<Rightarrow> ustr list \<Rightarrow> qa_record list" where
  "pair_records base_filename questions answers =
     map (\<lambda>i. \<lparr>question = strip_index_token (questions ! i),
               answer = strip_index_token (answers ! i),
               filename = base_filename\<rparr>)
         [0 ..< min (length questions) (length answers)]"






definition pair_count :: "ustr \<times> ustr list \<times> ustr list \<Rightarrow> nat" where
  "pair_count d = min (length (fst (snd d))) (length (snd (snd d)))"

section \<open>The paragraph loops of the extractors\<close>

text \<open>\<open>sep.join(xs)\<close>.\<close>

fun join :: "ustr \<Rightarrow> ustr list \<Rightarrow> ustr" where
  "join sep [] = []"
| "join sep [x] = x"
| "join sep (x # y # ys) = x @ sep @ join sep (y # ys)"

text \<open>A \<open>for\<close> loop whose body may raise: the first exception ends the loop.\<close>

fun run_loop :: "('s \<Rightarrow> 'a \<Rightarrow> error + 's) \<Rightarrow> 's \<Rightarrow> 'a list \<Rightarrow> error + 's" where
  "run_loop body st [] = Inr st"
| "run_loop body st (x # xs) =
     (case body st x of Inl e \<Rightarrow> Inl e | Inr st' \<Rightarrow> run_loop body st' xs)"

text \<open>The local variables of the parse loops. The extractors share these names
  (\<open>questions\<close> and \<open>answers\<close> of qa_6.py and qa_7.py are \<open>parsed_questions\<close> and
  \<open>parsed_answers\<close> here); \<open>current_question\<close> is \<open>None\<close> or a string in qa_2.py and
  qa_4.py, a string in qa_3.py and qa_6.py, a list of lines in qa_5.py and qa_7.py. A
  loop that has no counter or no flag leaves that field alone.\<close>

record 'q parser_state =
  parsed_questions :: "ustr list"
  parsed_answers :: "ustr list"
  current_question :: 'q
  current_answer :: "ustr list"
  question_counter :: int
  is_question :: bool
  is_answer :: bool

definition initial_state :: "'q \<Rightarrow> 'q parser_state" where
  "initial_state q =
     \<lparr>parsed_questions = [], parsed_answers = [], current_question = q, current_answer = [],
      question_counter = 1, is_question = False, is_answer = False\<rparr>"

text \<open>The class \<open>[\<dots>]\<close> of the Tibetan digits U+0F20 .. U+0F29 and the class of the
  Tibetan letters U+0F40 .. U+0F68.\<close>

definition tib_digit :: "nat \<Rightarrow> bool" where
  "tib_digit c \<longleftrightarrow> 3872 \<le> c \<and> c \<le> 3881"

definition tib_letter :: "nat \<Rightarrow> bool" where
  "tib_letter c \<longleftrightarrow> 3904 \<le> c \<and> c \<le> 3944"

text \<open>The closing bracket U+0F3D and the space that follow an index in every entry.\<close>

definition bracket_space :: ustr where
  "bracket_space = [3901, 32]"

subsection \<open>Variant A: leading numeral (qa_2.py)\<close>

text \<open>\<open>initial_number_pattern = ^[digits]+\<close>: \<open>match\<close> and \<open>sub("", text)\<close>.\<close>

definition initial_number_match :: "ustr \<Rightarrow> bool" where
  "initial_number_match line = (case line of [] \<Rightarrow> False | c # _ \<Rightarrow> tib_digit c)"

definition initial_number_sub :: "ustr \<Rightarrow> ustr" where
  "initial_number_sub text = dropWhile tib_digit text"

text \<open>\<open>duplicate_number_pattern.sub\<close> with the closing bracket and a space as the
  replacement, for the pattern U+0F3D \<open>\s*[digits]+\s*\<close>: the three classes are
  disjoint, so a match at a bracket takes all the whitespace, then all the digits (at least
  one), then all the whitespace.\<close>

function duplicate_number_sub :: "ustr \<Rightarrow> ustr" where
  "duplicate_number_sub [] = []"
| "duplicate_number_sub (c # cs) =
     (if c = 3901 \<and> dropWhile isspace cs \<noteq> [] \<and> tib_digit (hd (dropWhile isspace cs))
      then bracket_space @
           duplicate_number_sub (dropWhile isspace (dropWhile tib_digit (dropWhile isspace cs)))
      else c # duplicate_number_sub cs)"
  by pat_completeness auto
termination
proof (relation "measure length")
  fix c :: nat and cs :: ustr
  have "length (dropWhile isspace (dropWhile tib_digit (dropWhile isspace cs)))
          \<le> length (dropWhile tib_digit (dropWhile isspace cs))"
    by (rule length_dropWhile_le)
  also have "\<dots> \<le> length (dropWhile isspace cs)" by (rule length_dropWhile_le)
  also have "\<dots> \<le> length cs" by (rule length_dropWhile_le)
  finally show "(dropWhile isspace (dropWhile tib_digit (dropWhile isspace cs)), c # cs)
                  \<in> measure length"
    by simp
qed simp_all

definition clean_question_text_qa2 :: "ustr \<Rightarrow> ustr" where
  "clean_question_text_qa2 text = strip (duplicate_number_sub (strip (initial_number_sub text)))"

definition answer_prefix_qa2 :: ustr where
  "answer_prefix_qa2 = [3939, 3923, 3853, 32]"

definition remove_answer_prefix :: "ustr \<Rightarrow> ustr" where
  "remove_answer_prefix line =
     (if startswith line answer_prefix_qa2 then drop (length answer_prefix_qa2) line else line)"

text \<open>\<open>_process_current_qa\<close>: both entries call \<open>int_to_tibetan_numeral(counter)\<close>, and the
  first call raises if any does.\<close>

definition process_current_qa_qa2 ::
  "ustr \<Rightarrow> ustr list \<Rightarrow> int \<Rightarrow> ustr list \<Rightarrow> ustr list \<Rightarrow> error + (ustr list \<times> ustr list)" where
  "process_current_qa_qa2 question_text answer_lines counter questions_list answers_list =
     (case int_to_tibetan_numeral counter of
        Inl e \<Rightarrow> Inl e
      | Inr num \<Rightarrow>
          Inr (questions_list @ [num @ bracket_space @ clean_question_text_qa2 question_text],
               answers_list @ [num @ bracket_space @ join [10] (map remove_answer_prefix answer_lines)]))"

text \<open>\<open>if current_question:\<close> on \<open>None\<close> or a string.\<close>

definition truthy :: "ustr option \<Rightarrow> bool" where
  "truthy q = (case q of None \<Rightarrow> False | Some s \<Rightarrow> s \<noteq> [])"

definition step_qa2 :: "ustr option parser_state \<Rightarrow> ustr \<Rightarrow> error + ustr option parser_state" where
  "step_qa2 st paragraph =
     (let line = strip paragraph in
      if line = [] then Inr st
      else if initial_number_match line then
        (if truthy (current_question st) then
           (case process_current_qa_qa2 (the (current_question st)) (current_answer st)
                   (question_counter st) (parsed_questions st) (parsed_answers st) of
              Inl e \<Rightarrow> Inl e
            | Inr r \<Rightarrow>
                Inr (st\<lparr>parsed_questions := fst r, parsed_answers := snd r,
                        question_counter := question_counter st + 1,
                        current_question := Some line, current_answer := []\<rparr>))
         else Inr (st\<lparr>current_question := Some line, current_answer := []\<rparr>))
      else Inr (st\<lparr>current_answer := current_answer st @ [line]\<rparr>))"

definition parse_docx_qa2 :: "ustr list \<Rightarrow> error + (ustr list \<times> ustr list)" where
  "parse_docx_qa2 paragraphs =
     (case run_loop step_qa2 (initial_state None) paragraphs of
        Inl e \<Rightarrow> Inl e
      | Inr st \<Rightarrow>
          if truthy (current_question st) then
            process_current_qa_qa2 (the (current_question st)) (current_answer st)
              (question_counter st) (parsed_questions st) (parsed_answers st)
          else Inr (parsed_questions st, parsed_answers st))"

subsection \<open>Variant B: numeral and answer keyword (qa_3.py)\<close>

definition answer_prefix_qa3 :: ustr where
  "answer_prefix_qa3 = [3939, 3923, 3853]"

text \<open>\<open>question_number_pattern = ^[digits]+\s*\<close>: \<open>match\<close> and \<open>sub("", text)\<close>.\<close>

definition question_number_match :: "ustr \<Rightarrow> bool" where
  "question_number_match line = (case line of [] \<Rightarrow> False | c # _ \<Rightarrow> tib_digit c)"

definition question_number_sub :: "ustr \<Rightarrow> ustr" where
  "question_number_sub text =
     (if question_number_match text then dropWhile isspace (dropWhile tib_digit text) else text)"

definition clean_question_text_qa3 :: "ustr \<Rightarrow> ustr" where
  "clean_question_text_qa3 text = strip (question_number_sub text)"

text \<open>The two \<open>append\<close>s that close a record; the loop and the code after it hold the
  same two statements.\<close>

definition emit_qa3 :: "ustr parser_state \<Rightarrow> error + ustr parser_state" where
  "emit_qa3 st =
     (case int_to_tibetan_numeral (question_counter st) of
        Inl e \<Rightarrow> Inl e
      | Inr num \<Rightarrow>
          Inr (st\<lparr>parsed_questions := parsed_questions st @
                     [num @ bracket_space @ clean_question_text_qa3 (current_question st)],
                  parsed_answers := parsed_answers st @
                     [num @ bracket_space @ join [10] (current_answer st)]\<rparr>))"

definition step_qa3 :: "ustr parser_state \<Rightarrow> ustr \<Rightarrow> error + ustr parser_state" where
  "step_qa3 st paragraph =
     (let line = strip paragraph in
      if line = [] then Inr st
      else if question_number_match line then
        (if current_question st \<noteq> [] \<and> current_answer st \<noteq> [] then
           (case emit_qa3 st of
              Inl e \<Rightarrow> Inl e
            | Inr st' \<Rightarrow>
                Inr (st'\<lparr>current_answer := [], question_counter := question_counter st + 1,
                         current_question := line, is_answer := False\<rparr>))
         else Inr (st\<lparr>current_question := line, is_answer := False\<rparr>))
      else if startswith line answer_prefix_qa3 then
        Inr (st\<lparr>is_answer := True,
                current_answer := current_answer st @
                  [strip (drop (length answer_prefix_qa3) line)]\<rparr>)
      else if is_answer st then Inr (st\<lparr>current_answer := current_answer st @ [line]\<rparr>)
      else Inr (st\<lparr>current_question := current_question st @ [32] @ line\<rparr>))"

definition parse_docx_qa3 :: "ustr list \<Rightarrow> error + (ustr list \<times> ustr list)" where
  "parse_docx_qa3 paragraphs =
     (case run_loop step_qa3 (initial_state []) paragraphs of
        Inl e \<Rightarrow> Inl e
      | Inr st \<Rightarrow>
          if current_question st \<noteq> [] \<and> current_answer st \<noteq> [] then
            (case emit_qa3 st of
               Inl e \<Rightarrow> Inl e
             | Inr st' \<Rightarrow> Inr (parsed_questions st', parsed_answers st'))
          else Inr (parsed_questions st, parsed_answers st))"

subsection \<open>Variant C: sentinel glyph and answer phrases (qa_4.py)\<close>

definition shey_character :: nat where
  "shey_character = 3853"

definition answer_phrase_1 :: ustr where
  "answer_phrase_1 = [3921, 3962, 3936, 3954, 3851, 3939, 3923, 3851, 3923, 3954, 3853]"

definition answer_phrase_2 :: ustr where
  "answer_phrase_2 = [3921, 3962, 3936, 3954, 3851, 3921, 3964, 3923, 3851, 3923, 3954, 3853]"

text \<open>\<open>question_start_pattern = ^\<close>U+0F08, \<open>answer_start_pattern\<close> and
  \<open>answer_remove_pattern\<close> (the same alternation of the two phrases).\<close>

definition question_start_match :: "ustr \<Rightarrow> bool" where
  "question_start_match line = (case line of [] \<Rightarrow> False | c # _ \<Rightarrow> c = 3848)"

definition answer_start_match :: "ustr \<Rightarrow> bool" where
  "answer_start_match line \<longleftrightarrow> startswith line answer_phrase_1 \<or> startswith line answer_phrase_2"

definition answer_remove_sub :: "ustr \<Rightarrow> ustr" where
  "answer_remove_sub text =
     (if startswith text answer_phrase_1 then drop (length answer_phrase_1) text
      else if startswith text answer_phrase_2 then drop (length answer_phrase_2) text
      else text)"

definition clean_question_text_qa4 :: "ustr \<Rightarrow> ustr" where
  "clean_question_text_qa4 text =
     (if shey_character \<in> set text
      then strip (tl (dropWhile (\<lambda>c. c \<noteq> shey_character) text))
      else strip text)"

definition clean_answer_text :: "ustr \<Rightarrow> ustr" where
  "clean_answer_text text = strip (answer_remove_sub text)"

definition process_current_qa_qa4 ::
  "ustr \<Rightarrow> ustr list \<Rightarrow> int \<Rightarrow> ustr list \<Rightarrow> ustr list \<Rightarrow> ustr list \<times> ustr list" where
  "process_current_qa_qa4 question_text answer_lines counter questions_list answers_list =
     (questions_list @ [str_int counter @ bracket_space @ question_text],
      answers_list @ [str_int counter @ bracket_space @ join [10] answer_lines])"

definition step_qa4 :: "ustr option parser_state \<Rightarrow> ustr \<Rightarrow> ustr option parser_state" where
  "step_qa4 st paragraph =
     (let line = strip paragraph in
      if line = [] then st
      else if question_start_match line then
        (if truthy (current_question st) then
           (let r = process_current_qa_qa4 (the (current_question st)) (current_answer st)
                      (question_counter st) (parsed_questions st) (parsed_answers st)
            in st\<lparr>parsed_questions := fst r, parsed_answers := snd r,
                  question_counter := question_counter st + 1,
                  current_question := Some (clean_question_text_qa4 line),
                  current_answer := []\<rparr>)
         else st\<lparr>current_question := Some (clean_question_text_qa4 line), current_answer := []\<rparr>)
      else if answer_start_match line then
        st\<lparr>current_answer := current_answer st @ [clean_answer_text line]\<rparr>
      else st\<lparr>current_answer := current_answer st @ [line]\<rparr>)"

definition parse_docx_qa4 :: "ustr list \<Rightarrow> ustr list \<times> ustr list" where
  "parse_docx_qa4 paragraphs =
     (let st = foldl step_qa4 (initial_state None) paragraphs in
      if truthy (current_question st) then
        process_current_qa_qa4 (the (current_question st)) (current_answer st)
          (question_counter st) (parsed_questions st) (parsed_answers st)
      else (parsed_questions st, parsed_answers st))"

subsection \<open>Variant D: bare alphabet marker (qa_5.py)\<close>

text \<open>\<open>alphabet_pattern = ^[letters]\s*$\<close> with \<open>match\<close>, and the substitution of
  \<open>^[letters]\s*\<close> by the empty string.\<close>

definition alphabet_match :: "ustr \<Rightarrow> bool" where
  "alphabet_match line = (case line of [] \<Rightarrow> False | c # rest \<Rightarrow> tib_letter c \<and> list_all isspace rest)"

definition alphabet_sub :: "ustr \<Rightarrow> ustr" where
  "alphabet_sub text =
     (case text of [] \<Rightarrow> [] | c # rest \<Rightarrow> if tib_letter c then dropWhile isspace rest else text)"

definition process_current_qa_qa5 ::
  "ustr list \<Rightarrow> ustr list \<Rightarrow> int \<Rightarrow> ustr list \<Rightarrow> ustr list \<Rightarrow> ustr list \<times> ustr list" where
  "process_current_qa_qa5 question_lines answer_lines counter questions_list answers_list =
     (questions_list @
        [str_int counter @ bracket_space @ strip (alphabet_sub (strip (join [32] question_lines)))],
      answers_list @ [str_int counter @ bracket_space @ strip (join [32] answer_lines)])"

definition step_qa5 :: "ustr list parser_state \<Rightarrow> ustr \<Rightarrow> ustr list parser_state" where
  "step_qa5 st paragraph =
     (let line = strip paragraph in
      if line = [] then st
      else if alphabet_match line then
        (if current_question st \<noteq> [] \<or> current_answer st \<noteq> [] then
           (let r = process_current_qa_qa5 (current_question st) (current_answer st)
                      (question_counter st) (parsed_questions st) (parsed_answers st)
            in st\<lparr>parsed_questions := fst r, parsed_answers := snd r,
                  question_counter := question_counter st + 1,
                  current_question := [line], current_answer := []\<rparr>)
         else st\<lparr>current_question := current_question st @ [line]\<rparr>)
      else if current_question st \<noteq> [] then
        (if length (current_question st) = 1
         then st\<lparr>current_question := current_question st @ [line]\<rparr>
         else st\<lparr>current_answer := current_answer st @ [line]\<rparr>)
      else st)"

definition parse_docx_qa5 :: "ustr list \<Rightarrow> ustr list \<times> ustr list" where
  "parse_docx_qa5 paragraphs =
     (let st = foldl step_qa5 (initial_state []) paragraphs in
      if current_question st \<noteq> [] \<or> current_answer st \<noteq> [] then
        process_current_qa_qa5 (current_question st) (current_answer st)
          (question_counter st) (parsed_questions st) (parsed_answers st)
      else (parsed_questions st, parsed_answers st))"

subsection \<open>Variant E: embedded bracketed numeral (qa_6.py)\<close>

text \<open>\<open>int_to_tibetan\<close>: the digit map with no handler.\<close>

definition int_to_tibetan :: "int \<Rightarrow> error + ustr" where
  "int_to_tibetan num = join_digits (str_int num)"

text \<open>\<open>question_pattern\<close> = U+0F3C \<open>\s*([digits]+)\s*\<close> U+0F3D. A match at the start of
  \<open>s\<close> gives the matched text, \<open>search\<close> the leftmost match.\<close>

definition question_pattern_match_at :: "ustr \<Rightarrow> ustr option" where
  "question_pattern_match_at s =
     (case s of
        [] \<Rightarrow> None
      | c # r \<Rightarrow>
          if c \<noteq> 3900 then None
          else
            (let ws1 = takeWhile isspace r; r1 = dropWhile isspace r;
                 ds = takeWhile tib_digit r1; r2 = dropWhile tib_digit r1;
                 ws2 = takeWhile isspace r2; r3 = dropWhile isspace r2
             in if ds \<noteq> [] \<and> r3 \<noteq> [] \<and> hd r3 = 3901
                then Some (c # ws1 @ ds @ ws2 @ [3901]) else None))"

fun question_pattern_search :: "ustr \<Rightarrow> ustr option" where
  "question_pattern_search [] = None"
| "question_pattern_search (c # cs) =
     (case question_pattern_match_at (c # cs) of
        Some m \<Rightarrow> Some m
      | None \<Rightarrow> question_pattern_search cs)"

text \<open>\<open>tseg_pattern\<close> = U+0F0B \<open>$\<close> with \<open>search\<close>: \<open>$\<close> holds at the end of the string
  and before a newline that ends it.\<close>

definition tseg_search :: "ustr \<Rightarrow> bool" where
  "tseg_search s \<longleftrightarrow>
     s \<noteq> [] \<and> (last s = 3851 \<or> (last s = 10 \<and> butlast s \<noteq> [] \<and> last (butlast s) = 3851))"

definition emit_qa6 :: "ustr parser_state \<Rightarrow> error + ustr parser_state" where
  "emit_qa6 st =
     (case int_to_tibetan (question_counter st) of
        Inl e \<Rightarrow> Inl e
      | Inr num \<Rightarrow>
          Inr (st\<lparr>parsed_questions := parsed_questions st @ [strip (current_question st)],
                  parsed_answers := parsed_answers st @
                     [num @ bracket_space @ strip (join [10] (current_answer st))]\<rparr>))"

definition step_qa6 :: "ustr parser_state \<Rightarrow> ustr \<Rightarrow> error + ustr parser_state" where
  "step_qa6 st paragraph =
     (let line = strip paragraph in
      if line = [] then Inr st
      else
        (case question_pattern_search line of
           Some m \<Rightarrow>
             (case (if current_question st \<noteq> []
                    then (case emit_qa6 st of
                            Inl e \<Rightarrow> Inl e
                          | Inr st' \<Rightarrow>
                              Inr (st'\<lparr>current_question := [], current_answer := [],
                                       question_counter := question_counter st + 1\<rparr>))
                    else Inr st) of
                Inl e \<Rightarrow> Inl e
              | Inr st1 \<Rightarrow>
                  (case int_to_tibetan (question_counter st1) of
                     Inl e \<Rightarrow> Inl e
                   | Inr num \<Rightarrow>
                       Inr (st1\<lparr>current_question :=
                                  num @ bracket_space @ strip (replace_all m [] line)\<rparr>)))
         | None \<Rightarrow>
             if current_question st \<noteq> [] \<and> tseg_search (current_question st)
             then Inr (st\<lparr>current_question := current_question st @ [32] @ line\<rparr>)
             else Inr (st\<lparr>current_answer := current_answer st @ [line]\<rparr>)))"

text \<open>\<open>process_docx\<close>, up to the two lists it hands to \<open>save_to_file\<close>.\<close>

definition process_docx_qa6 :: "ustr list \<Rightarrow> error + (ustr list \<times> ustr list)" where
  "process_docx_qa6 paragraphs =
     (case run_loop step_qa6 (initial_state []) paragraphs of
        Inl e \<Rightarrow> Inl e
      | Inr st \<Rightarrow>
          if current_question st \<noteq> [] then
            (case emit_qa6 st of
               Inl e \<Rightarrow> Inl e
             | Inr st' \<Rightarrow> Inr (parsed_questions st', parsed_answers st'))
          else Inr (parsed_questions st, parsed_answers st))"

subsection \<open>Variant F: dotted index and answer keyword (qa_7.py)\<close>

text \<open>\<open>re.match(r"^\d+\.", text)\<close>. The class \<open>\d\<close> of a \<open>str\<close> pattern is the Unicode
  category Nd, a table of the interpreter: it is the parameter \<open>decimal\<close> (the full stop
  is not in it, so the digits of a match are all the leading digits of the text).\<close>

definition dotted_index_match :: "(nat \<Rightarrow> bool) \<Rightarrow> ustr \<Rightarrow> bool" where
  "dotted_index_match decimal text \<longleftrightarrow>
     takeWhile decimal text \<noteq> [] \<and> dropWhile decimal text \<noteq> [] \<and> hd (dropWhile decimal text) = 46"

text \<open>\<open>text.split(".", 1)[1]\<close>: an \<open>IndexError\<close> when the text holds no full stop.\<close>

definition after_first_dot :: "ustr \<Rightarrow> error + ustr" where
  "after_first_dot text =
     (if 46 \<in> set text then Inr (tl (dropWhile (\<lambda>c. c \<noteq> 46) text)) else Inl IndexError)"

definition answer_keyword :: ustr where
  "answer_keyword = [3939, 3923, 3853]"

definition step_qa7 ::
  "(nat \<Rightarrow> bool) \<Rightarrow> ustr list parser_state \<Rightarrow> ustr \<Rightarrow> error + ustr list parser_state" where
  "step_qa7 decimal st paragraph =
     (let text = strip paragraph in
      if text = [] then Inr st
      else if dotted_index_match decimal text then
        (let st1 = (if current_question st \<noteq> []
                    then st\<lparr>parsed_questions := parsed_questions st @
                                [strip (join [32] (current_question st))],
                            current_question := []\<rparr>
                    else st)
         in case after_first_dot text of
              Inl e \<Rightarrow> Inl e
            | Inr rest \<Rightarrow>
                Inr (st1\<lparr>current_question := current_question st1 @ [strip rest],
                         is_question := True, is_answer := False\<rparr>))
      else if startswith text answer_keyword then
        (let st1 = (if current_answer st \<noteq> []
                    then st\<lparr>parsed_answers := parsed_answers st @
                                [strip (join [32] (current_answer st))],
                            current_answer := []\<rparr>
                    else st)
         in Inr (st1\<lparr>is_question := False, is_answer := True,
                     current_answer := current_answer st1 @
                        [strip (replace_all answer_keyword [] text)]\<rparr>))
      else if is_question st then Inr (st\<lparr>current_question := current_question st @ [text]\<rparr>)
      else if is_answer st then Inr (st\<lparr>current_answer := current_answer st @ [text]\<rparr>)
      else Inr st)"

text \<open>\<open>TibetanDocProcessor.process\<close>: the lists \<open>self.questions\<close> and \<open>self.answers\<close>.\<close>

definition process_qa7 :: "(nat \<Rightarrow> bool) \<Rightarrow> ustr list \<Rightarrow> error + (ustr list \<times> ustr list)" where
  "process_qa7 decimal paragraphs =
     (case run_loop (step_qa7 decimal) (initial_state []) paragraphs of
        Inl e \<Rightarrow> Inl e
      | Inr st \<Rightarrow>
          Inr (if current_question st \<noteq> []
               then parsed_questions st @ [strip (join [32] (current_question st))]
               else parsed_questions st,
               if current_answer st \<noteq> []
               then parsed_answers st @ [strip (join [32] (current_answer st))]
               else parsed_answers st))"

text \<open>\<open>save_to_files\<close>: the strings written to one file, in order, by the loop over
  \<open>enumerate(entries, start=1)\<close>; \<open>convert_to_tibetan_number\<close> of qa_7.py is the digit map
  with no handler and no bracket.\<close>

fun write_entries :: "int \<Rightarrow> ustr list \<Rightarrow> error + ustr list" where
  "write_entries idx [] = Inr []"
| "write_entries idx (entry # entries) =
     (case int_to_tibetan idx of
        Inl e \<Rightarrow> Inl e
      | Inr tibetan_num \<Rightarrow>
          (case write_entries (idx + 1) entries of
             Inl e \<Rightarrow> Inl e
           | Inr written \<Rightarrow> Inr ((tibetan_num @ bracket_space @ entry @ [10, 10]) # written)))"

definition save_to_files :: "ustr list \<times> ustr list \<Rightarrow> error + (ustr list \<times> ustr list)" where
  "save_to_files qa =
     (case write_entries 1 (fst qa) of
        Inl e \<Rightarrow> Inl e
      | Inr qf \<Rightarrow> (case write_entries 1 (snd qa) of Inl e \<Rightarrow> Inl e | Inr af \<Rightarrow> Inr (qf, af)))"

subsection \<open>Variant G: one unit per paragraph (html_parser.py)\<close>

text \<open>\<open>sub in s\<close>.\<close>

fun contains :: "ustr \<Rightarrow> ustr \<Rightarrow> bool" where
  "contains [] sub = (sub = [])"
| "contains (c # cs) sub = (startswith (c # cs) sub \<or> contains cs sub)"

record html_state =
  html_questions :: "ustr list"
  html_answers :: "ustr list"
  question_index :: int
  answer_index :: int

text \<open>One paragraph of the page: the text of its first \<open>span\<close> of class \<open>span0\<close>, if it
  has one.\<close>

definition step_html :: "html_state \<Rightarrow> ustr option \<Rightarrow> error + html_state" where
  "step_html st span =
     (case span of
        None \<Rightarrow> Inr st
      | Some span_text \<Rightarrow>
          (let content = strip span_text in
           if contains content answer_keyword then
             (case convert_to_tibetan_number (answer_index st) of
                Inl e \<Rightarrow> Inl e
              | Inr num \<Rightarrow>
                  Inr (st\<lparr>html_answers := html_answers st @
                             [num @ [32] @ strip (replace_all answer_keyword [] content)],
                          answer_index := answer_index st + 1\<rparr>))
           else
             (case convert_to_tibetan_number (question_index st) of
                Inl e \<Rightarrow> Inl e
              | Inr num \<Rightarrow>
                  Inr (st\<lparr>html_questions := html_questions st @
                             [num @ [32] @
                              (if 32 \<in> set content then last (split_space_1 content) else content)],
                          question_index := question_index st + 1\<rparr>))))"

definition parse_html :: "ustr option list \<Rightarrow> error + (ustr list \<times> ustr list)" where
  "parse_html paragraphs =
     (case run_loop step_html
             \<lparr>html_questions = [], html_answers = [], question_index = 1, answer_index = 1\<rparr>
             paragraphs of
        Inl e \<Rightarrow> Inl e
      | Inr st \<Rightarrow> Inr (html_questions st, html_answers st))"

section \<open>Index tokens and question lines, as the specification names them\<close>

text \<open>The index of an entry: the numeral of its position and the closing bracket, in
  Tibetan digits (qa_2.py, qa_3.py, qa_6.py, qa_7.py, html_parser.py) or in the digits of
  \<open>str\<close> (qa_4.py, qa_5.py).\<close>

definition tibetan_index :: "nat \<Rightarrow> ustr" where
  "tibetan_index n = encode_spec n @ [closing_glyph]"

definition arabic_index :: "nat \<Rightarrow> ustr" where
  "arabic_index n = str_nat n @ [closing_glyph]"

text \<open>The entries carry the indices 1, 2, \<dots> in order.\<close>

definition indexed_run :: "(nat \<Rightarrow> ustr) \<Rightarrow> ustr list \<Rightarrow> bool" where
  "indexed_run tok entries \<longleftrightarrow> (\<forall>i < length entries. startswith (entries ! i) (tok (Suc i)))"

text \<open>The number of paragraphs of a stream whose line a classifier accepts.\<close>

definition count_lines :: "(ustr \<Rightarrow> bool) \<Rightarrow> ustr list \<Rightarrow> nat" where
  "count_lines classify paragraphs = length (filter (\<lambda>p. classify (strip p)) paragraphs)"

text \<open>A stream cut into records: each a question paragraph and the paragraphs after it.\<close>

definition stream_of :: "(ustr \<times> ustr list) list \<Rightarrow> ustr list" where
  "stream_of segments = concat (map (\<lambda>seg. fst seg # snd seg) segments)"

definition answered_qa3 :: "ustr list \<Rightarrow> bool" where
  "answered_qa3 body \<longleftrightarrow> (\<exists>p \<in> set body. startswith (strip p) answer_prefix_qa3)"

section \<open>Properties of the numeral encoder\<close>

declare str_nat.simps [simp del]
declare base10_digits.simps [simp del]

lemma base10_digits_lt: "d \<in> set (base10_digits n) \<Longrightarrow> d < 10"
proof (induction n arbitrary: d rule: base10_digits.induct)
  case (1 n)
  show ?case
  proof (cases "n < 10")
    case True
    with "1.prems" show ?thesis by (simp add: base10_digits.simps [of n])
  next
    case False
    with "1.prems" "1.IH" show ?thesis
      by (auto simp: base10_digits.simps [of n])
  qed
qed




lemma str_nat_base10: "str_nat n = map (\<lambda>d. 48 + d) (base10_digits n)"
proof (induction n rule: str_nat.induct)
  case (1 n)
  then show ?case
    by (cases "n < 10") (simp_all add: str_nat.simps [of n] base10_digits.simps [of n])
qed

lemma join_digits_ascii:
  "\<forall>d \<in> set ds. d < 10 \<Longrightarrow>
   join_digits (map (\<lambda>d. 48 + d) ds) = Inr (map (\<lambda>d. TIBETAN_DIGITS ! d) ds)"
  by (induction ds) (simp_all add: int_of_char_def index_def TIBETAN_DIGITS_def)

lemma join_digits_str_nat: "join_digits (str_nat n) = Inr (encode_spec n)"
  unfolding str_nat_base10 encode_spec_def
  by (rule join_digits_ascii) (simp add: base10_digits_lt)






section \<open>Properties of the text normalizer\<close>

lemma isspace_32: "isspace 32"
  by (simp add: isspace_def)

lemma last_dropWhile: "dropWhile P xs \<noteq> [] \<Longrightarrow> last (dropWhile P xs) = last xs"
  by (induction xs) (auto split: if_splits)

lemma filter_dropWhile_not: "filter (\<lambda>c. \<not> P c) (dropWhile P xs) = filter (\<lambda>c. \<not> P c) xs"
  by (induction xs) auto

lemma dropWhile_sub_ws: "r = [] \<or> \<not> isspace (hd r) \<Longrightarrow> dropWhile isspace (sub_ws r) = sub_ws r"
  by (cases r) auto

lemma dropWhile_hd_cases: "dropWhile P xs = [] \<or> \<not> P (hd (dropWhile P xs))"
  using hd_dropWhile [of P xs] by blast

lemma sub_ws_idem: "sub_ws (sub_ws s) = sub_ws s"
proof (induction s rule: sub_ws.induct)
  case 1
  show ?case by simp
next
  case (2 c cs)
  show ?case
  proof (cases "isspace c")
    case True
    with 2 have ih: "sub_ws (sub_ws (dropWhile isspace cs)) = sub_ws (dropWhile isspace cs)"
      by simp
    from True show ?thesis
      by (simp add: isspace_32 dropWhile_sub_ws [OF dropWhile_hd_cases] ih)
  next
    case False
    with 2 show ?thesis by simp
  qed
qed

lemma sub_ws_last: "s \<noteq> [] \<Longrightarrow> \<not> isspace (last s) \<Longrightarrow> sub_ws s \<noteq> [] \<and> last (sub_ws s) = last s"
proof (induction s rule: sub_ws.induct)
  case 1
  then show ?case by simp
next
  case (2 c cs)
  show ?case
  proof (cases "isspace c")
    case True
    with "2.prems" have cs: "cs \<noteq> []" by auto
    with "2.prems" have lcs: "\<not> isspace (last cs)" by simp
    from cs have "last cs \<in> set cs" by simp
    with lcs have rne: "dropWhile isspace cs \<noteq> []"
      by (auto simp: dropWhile_eq_Nil_conv)
    then have lr: "last (dropWhile isspace cs) = last cs" by (rule last_dropWhile)
    from "2.IH"(1) [OF True rne] lr lcs
    have "sub_ws (dropWhile isspace cs) \<noteq> [] \<and> last (sub_ws (dropWhile isspace cs)) = last cs"
      by simp
    with True cs show ?thesis by simp
  next
    case False
    show ?thesis
    proof (cases "cs = []")
      case True
      with False show ?thesis by simp
    next
      case ne: False
      with "2.prems" have "\<not> isspace (last cs)" by simp
      from "2.IH"(2) [OF False ne this] False ne show ?thesis by simp
    qed
  qed
qed

lemma strip_trimmed: "strip s = [] \<or> (\<not> isspace (hd (strip s)) \<and> \<not> isspace (last (strip s)))"
proof -
  let ?u = "dropWhile isspace s"
  let ?t = "dropWhile isspace (rev ?u)"
  have st: "strip s = rev ?t" by (simp add: strip_def lstrip_def rstrip_def)
  show ?thesis
  proof (cases "?t = []")
    case True
    then show ?thesis by (simp add: st)
  next
    case False
    have 1: "\<not> isspace (hd ?t)" using False by (rule hd_dropWhile)
    have 2: "last ?t = last (rev ?u)" using False by (rule last_dropWhile)
    have une: "?u \<noteq> []"
    proof
      assume e: "?u = []"
      have "?t = []" unfolding e by simp
      with False show False by contradiction
    qed
    have 3: "\<not> isspace (hd ?u)" using une by (rule hd_dropWhile)
    have 4: "last (rev ?u) = hd ?u" using une by (simp add: last_rev)
    have 5: "hd (rev ?t) = last ?t" using False by (simp add: hd_rev)
    have 6: "last (rev ?t) = hd ?t" using False by (simp add: last_rev)
    from 1 2 3 4 5 6 show ?thesis unfolding st by simp
  qed
qed

lemma strip_id:
  assumes "s = [] \<or> (\<not> isspace (hd s) \<and> \<not> isspace (last s))"
  shows "strip s = s"
proof (cases "s = []")
  case True
  then show ?thesis by (simp add: strip_def lstrip_def rstrip_def)
next
  case False
  with assms have h: "\<not> isspace (hd s)" and l: "\<not> isspace (last s)" by simp_all
  from False h have a: "dropWhile isspace s = s" by (cases s) auto
  from False obtain y ys where r: "rev s = y # ys" by (cases "rev s") auto
  from False have "hd (rev s) = last s" by (simp add: hd_rev)
  with r l have "\<not> isspace y" by simp
  with r have b: "dropWhile isspace (rev s) = rev s" by simp
  show ?thesis by (simp add: strip_def lstrip_def rstrip_def a b)
qed

lemma clean_trimmed:
  "clean_tibetan_text x = [] \<or>
   (\<not> isspace (hd (clean_tibetan_text x)) \<and> \<not> isspace (last (clean_tibetan_text x)))"
proof (cases "strip x = []")
  case True
  then show ?thesis by (simp add: clean_tibetan_text_def)
next
  case False
  with strip_trimmed [of x]
  have h: "\<not> isspace (hd (strip x))" and l: "\<not> isspace (last (strip x))" by simp_all
  from False h have "hd (sub_ws (strip x)) = hd (strip x)" by (cases "strip x") auto
  moreover from sub_ws_last [OF False l] have "last (sub_ws (strip x)) = last (strip x)" by simp
  ultimately show ?thesis using h l by (simp add: clean_tibetan_text_def)
qed

lemma filter_sub_ws: "filter (\<lambda>c. \<not> isspace c) (sub_ws s) = filter (\<lambda>c. \<not> isspace c) s"
  by (induction s rule: sub_ws.induct) (auto simp: filter_dropWhile_not isspace_32)

lemma filter_strip: "filter (\<lambda>c. \<not> isspace c) (strip s) = filter (\<lambda>c. \<not> isspace c) s"
  by (simp add: strip_def lstrip_def rstrip_def filter_dropWhile_not flip: rev_filter)

lemma sub_ws_hd_cases:
  "r = [] \<or> \<not> isspace (hd r) \<Longrightarrow> sub_ws r = [] \<or> \<not> isspace (hd (sub_ws r))"
  by (cases r) auto

lemma single_spaced_sub_ws: "single_spaced (sub_ws s)"
proof (induction s rule: sub_ws.induct)
  case 1
  show ?case by simp
next
  case (2 c cs)
  show ?case
  proof (cases "isspace c")
    case True
    let ?r = "dropWhile isspace cs"
    have "sub_ws ?r = [] \<or> \<not> isspace (hd (sub_ws ?r))"
      by (rule sub_ws_hd_cases) (rule dropWhile_hd_cases)
    with True 2 show ?thesis by (simp add: isspace_32)
  next
    case False
    with 2 show ?thesis by simp
  qed
qed

text \<open>C8. The normalizer is idempotent. It keeps every character that is not
  whitespace, in order; its result neither starts nor ends with whitespace; and every
  whitespace character left in it is one space U+0020 followed by a character that is not
  whitespace.\<close>

theorem clean_tibetan_text_idempotent:
  "clean_tibetan_text (clean_tibetan_text x) = clean_tibetan_text x
   \<and> filter (\<lambda>c. \<not> isspace c) (clean_tibetan_text x) = filter (\<lambda>c. \<not> isspace c) x
   \<and> (clean_tibetan_text x = [] \<or>
        (\<not> isspace (hd (clean_tibetan_text x)) \<and> \<not> isspace (last (clean_tibetan_text x))))
   \<and> single_spaced (clean_tibetan_text x)"
proof -
  have "strip (clean_tibetan_text x) = clean_tibetan_text x"
    by (rule strip_id) (rule clean_trimmed)
  then have "clean_tibetan_text (clean_tibetan_text x) = sub_ws (sub_ws (strip x))"
    by (simp add: clean_tibetan_text_def)
  then have idem: "clean_tibetan_text (clean_tibetan_text x) = clean_tibetan_text x"
    by (simp add: sub_ws_idem clean_tibetan_text_def)
  have keep: "filter (\<lambda>c. \<not> isspace c) (clean_tibetan_text x) = filter (\<lambda>c. \<not> isspace c) x"
    by (simp add: clean_tibetan_text_def filter_sub_ws filter_strip)
  have single: "single_spaced (clean_tibetan_text x)"
    by (simp add: clean_tibetan_text_def single_spaced_sub_ws)
  from idem keep clean_trimmed [of x] single show ?thesis by blast
qed

theorem clean_tibetan_text_idempotent_witness:
  "clean_tibetan_text [32, 9, 3904, 3851, 32, 10, 3853, 12288] = [3904, 3851, 32, 3853]
   \<and> clean_tibetan_text (clean_tibetan_text [32, 9, 3904, 3851, 32, 10, 3853, 12288])
       = [3904, 3851, 32, 3853]"
proof -
  have e: "clean_tibetan_text [32, 9, 3904, 3851, 32, 10, 3853, 12288] = [3904, 3851, 32, 3853]"
    by (simp add: clean_tibetan_text_def strip_def lstrip_def rstrip_def isspace_def)
  show ?thesis
    using clean_tibetan_text_idempotent [of "[32, 9, 3904, 3851, 32, 10, 3853, 12288]"]
    by (simp add: e)
qed

section \<open>Properties of the corpus aggregator\<close>

lemma strip_index_token_no_space: "32 \<notin> set l \<Longrightarrow> strip_index_token l = l"
  by (simp add: strip_index_token_def split_space_1_def)

lemma strip_index_token_space: "32 \<notin> set a \<Longrightarrow> strip_index_token (a @ 32 # b) = b"
proof -
  assume a: "32 \<notin> set a"
  then have "dropWhile (\<lambda>c. c \<noteq> 32) (a @ 32 # b) = 32 # b"
    by (subst dropWhile_append2) auto
  then show ?thesis
    by (simp add: strip_index_token_def split_space_1_def)
qed

lemma pair_records_nth:
  "i < min (length questions) (length answers) \<Longrightarrow>
   pair_records base questions answers ! i =
     \<lparr>question = strip_index_token (questions ! i),
      answer = strip_index_token (answers ! i), filename = base\<rparr>"
  by (simp add: pair_records_def)


text \<open>C10. Each record of a document takes its question and its answer from the lines
  at the same position, cut after the first space: a line \<open>a @ " " @ b\<close> with no space in
  \<open>a\<close> gives \<open>b\<close>, and a line with no space at all is passed through as it is, its index
  token still in place.\<close>

theorem aggregator_index_strip:
  assumes "i < min (length questions) (length answers)"
  shows "question (pair_records base questions answers ! i) = strip_index_token (questions ! i)
       \<and> answer (pair_records base questions answers ! i) = strip_index_token (answers ! i)
       \<and> filename (pair_records base questions answers ! i) = base
       \<and> (32 \<notin> set (questions ! i) \<longrightarrow>
            question (pair_records base questions answers ! i) = questions ! i)
       \<and> (32 \<notin> set (answers ! i) \<longrightarrow>
            answer (pair_records base questions answers ! i) = answers ! i)
       \<and> (\<forall>a b. questions ! i = a @ 32 # b \<and> 32 \<notin> set a \<longrightarrow>
            question (pair_records base questions answers ! i) = b)
       \<and> (\<forall>a b. answers ! i = a @ 32 # b \<and> 32 \<notin> set a \<longrightarrow>
            answer (pair_records base questions answers ! i) = b)"
  using assms
  by (auto simp: pair_records_nth strip_index_token_no_space strip_index_token_space
      simp del: min_less_iff_conj)

theorem aggregator_index_strip_witness:
  "(0::nat) < min (length [[3873, 3901::nat]]) (length [[3873, 3901, 32, 3904, 32, 3905::nat]])
   \<and> 32 \<notin> set ([[3873, 3901::nat]] ! 0)
   \<and> question (pair_records [100] [[3873, 3901]] [[3873, 3901, 32, 3904, 32, 3905]] ! 0)
       = [3873, 3901]
   \<and> answer (pair_records [100] [[3873, 3901]] [[3873, 3901, 32, 3904, 32, 3905]] ! 0)
       = [3904, 32, 3905]"
  using aggregator_index_strip [of 0 "[[3873, 3901]]" "[[3873, 3901, 32, 3904, 32, 3905]]" "[100]"]
  by (simp add: strip_index_token_def split_space_1_def)








section \<open>Properties of the paragraph loops\<close>


lemma run_loop_append:
  "run_loop body st (xs @ ys) =
     (case run_loop body st xs of Inl e \<Rightarrow> Inl e | Inr s \<Rightarrow> run_loop body s ys)"
  by (induction xs arbitrary: st) (auto split: sum.splits)

lemma run_loop_snoc:
  "run_loop body st (xs @ [x]) =
     (case run_loop body st xs of Inl e \<Rightarrow> Inl e | Inr s \<Rightarrow> body s x)"
  by (simp add: run_loop_append split: sum.splits)

lemma isspace_10: "isspace 10"
  by (simp add: isspace_def)

lemma strip_last_not_space: "strip s \<noteq> [] \<Longrightarrow> \<not> isspace (last (strip s))"
  using strip_trimmed [of s] by simp

lemma strip_hd_not_space: "strip s \<noteq> [] \<Longrightarrow> \<not> isspace (hd (strip s))"
  using strip_trimmed [of s] by simp

subsection \<open>Variant D\<close>


lemma step_qa5_marker:
  assumes "alphabet_match (strip m)"
  shows "current_question (step_qa5 st m) = [strip m] \<and> current_answer (step_qa5 st m) = []"
proof -
  from assms have ne: "strip m \<noteq> []" by (auto simp: alphabet_match_def)
  with assms show ?thesis
    by (auto simp: step_qa5_def Let_def process_current_qa_qa5_def)
qed

lemma foldl_step_qa5_answers:
  assumes "current_question st \<noteq> []" and "length (current_question st) \<noteq> 1"
    and "\<forall>p \<in> set ps. \<not> alphabet_match (strip p)"
  shows "current_question (foldl step_qa5 st ps) = current_question st
       \<and> current_answer (foldl step_qa5 st ps) =
           current_answer st @ filter (\<lambda>l. l \<noteq> []) (map strip ps)"
  using assms
proof (induction ps arbitrary: st)
  case Nil
  show ?case by simp
next
  case (Cons p ps)
  let ?s = "step_qa5 st p"
  from Cons.prems have cq: "current_question ?s = current_question st"
    and ca: "current_answer ?s = current_answer st @ (if strip p = [] then [] else [strip p])"
    by (auto simp: step_qa5_def Let_def)
  from Cons.prems cq have "current_question ?s \<noteq> []" "length (current_question ?s) \<noteq> 1"
    "\<forall>p \<in> set ps. \<not> alphabet_match (strip p)" by simp_all
  from Cons.IH [OF this] cq ca show ?case by simp
qed

lemma foldl_step_qa5_question:
  assumes "current_question st = [x]"
    and "\<forall>p \<in> set ps. \<not> alphabet_match (strip p)"
  shows "(case filter (\<lambda>l. l \<noteq> []) (map strip ps) of
            [] \<Rightarrow> current_question (foldl step_qa5 st ps) = [x]
                  \<and> current_answer (foldl step_qa5 st ps) = current_answer st
          | l1 # ls \<Rightarrow> current_question (foldl step_qa5 st ps) = [x, l1]
                  \<and> current_answer (foldl step_qa5 st ps) = current_answer st @ ls)"
  using assms
proof (induction ps arbitrary: st)
  case Nil
  then show ?case by simp
next
  case (Cons p ps)
  show ?case
  proof (cases "strip p = []")
    case True
    then have e: "step_qa5 st p = st" by (simp add: step_qa5_def)
    from Cons.prems have "\<forall>p \<in> set ps. \<not> alphabet_match (strip p)" by simp
    from Cons.IH [OF Cons.prems(1) this] True e show ?thesis
      by (auto split: list.splits)
  next
    case False
    let ?s = "step_qa5 st p"
    from Cons.prems False have cq: "current_question ?s = [x, strip p]"
      and ca: "current_answer ?s = current_answer st"
      by (auto simp: step_qa5_def Let_def)
    from cq have "current_question ?s \<noteq> []" "length (current_question ?s) \<noteq> 1" by simp_all
    from foldl_step_qa5_answers [OF this] Cons.prems(2) cq ca False
    show ?thesis by simp
  qed
qed

text \<open>C5. Under variant D, after a marker line (one Tibetan letter, then whitespace only)
  the next non-empty line is appended to the question buffer and every later non-empty
  line before the next marker is appended to the answer buffer, whatever the lines hold:
  the question buffer is the marker and that one line, the answer buffer the other lines.\<close>

theorem qa5_marker_then_question_then_answer:
  assumes "alphabet_match (strip m)"
    and "\<forall>p \<in> set ps. \<not> alphabet_match (strip p)"
    and "filter (\<lambda>l. l \<noteq> []) (map strip ps) = l1 # ls"
  shows "current_question (foldl step_qa5 st (m # ps)) = [strip m, l1]
       \<and> current_answer (foldl step_qa5 st (m # ps)) = ls"
proof -
  from step_qa5_marker [OF assms(1), of st]
  have cq: "current_question (step_qa5 st m) = [strip m]"
    and ca: "current_answer (step_qa5 st m) = []" by simp_all
  from foldl_step_qa5_question [OF cq assms(2)] assms(3) ca show ?thesis by simp
qed

theorem qa5_marker_then_question_then_answer_witness:
  "alphabet_match (strip [3904])
   \<and> current_question (foldl step_qa5 (initial_state [])
        [[3904], [3905, 3851], [32], [3906, 3851], [3904, 3905]]) = [[3904], [3905, 3851]]
   \<and> current_answer (foldl step_qa5 (initial_state [])
        [[3904], [3905, 3851], [32], [3906, 3851], [3904, 3905]]) = [[3906, 3851], [3904, 3905]]
   \<and> parse_docx_qa5 [[3904], [3905, 3851], [32], [3906, 3851], [3904, 3905]] =
        ([[49, 3901, 32, 3905, 3851]], [[49, 3901, 32, 3906, 3851, 32, 3904, 3905]])"
proof -
  have s: "strip [3904] = [3904]" "strip [3905, 3851] = [3905, 3851]" "strip [32] = []"
    "strip [3906, 3851] = [3906, 3851]" "strip [3904, 3905] = [3904, 3905]"
    by (simp_all add: strip_def lstrip_def rstrip_def isspace_def)
  have m: "alphabet_match [3904]" "\<not> alphabet_match [3905, 3851]" "\<not> alphabet_match []"
    "\<not> alphabet_match [3906, 3851]" "\<not> alphabet_match [3904, 3905]"
    by (simp_all add: alphabet_match_def tib_letter_def isspace_def)
  have p: "parse_docx_qa5 [[3904], [3905, 3851], [32], [3906, 3851], [3904, 3905]] =
        ([[49, 3901, 32, 3905, 3851]], [[49, 3901, 32, 3906, 3851, 32, 3904, 3905]])"
    by (simp add: parse_docx_qa5_def step_qa5_def s m initial_state_def Let_def
        process_current_qa_qa5_def str_int_def str_nat.simps bracket_space_def alphabet_sub_def
        tib_letter_def strip_def lstrip_def rstrip_def isspace_def)
  show ?thesis
    using qa5_marker_then_question_then_answer
      [of "[3904]" "[[3905, 3851], [32], [3906, 3851], [3904, 3905]]" "[3905, 3851]"
          "[[3906, 3851], [3904, 3905]]" "initial_state []"]
    by (simp add: s m p)
qed

subsection \<open>Variant E\<close>


lemma run_loop_invariant:
  assumes "run_loop body st xs = Inr st'" and "I st"
    and "\<And>s x s'. I s \<Longrightarrow> body s x = Inr s' \<Longrightarrow> I s'"
  shows "I st'"
  using assms(1,2)
proof (induction xs arbitrary: st)
  case Nil
  then show ?case by simp
next
  case (Cons x xs)
  then show ?case by (auto split: sum.splits dest: assms(3))
qed

lemma step_qa6_no_newline:
  assumes "current_question s = [] \<or> last (current_question s) \<noteq> 10"
    and "step_qa6 s p = Inr s'"
  shows "current_question s' = [] \<or> last (current_question s') \<noteq> 10"
proof (cases "strip p = []")
  case True
  with assms show ?thesis by (simp add: step_qa6_def)
next
  case False
  then have l: "last (strip p) \<noteq> 10" using strip_last_not_space [of p] isspace_10 by metis
  show ?thesis
  proof (cases "question_pattern_search (strip p)")
    case None
    with assms False l show ?thesis
      by (auto simp: step_qa6_def Let_def split: if_splits)
  next
    case (Some m)
    have t: "\<And>num. last (num @ bracket_space @ strip (replace_all m [] (strip p))) \<noteq> 10"
    proof -
      fix num :: ustr
      show "last (num @ bracket_space @ strip (replace_all m [] (strip p))) \<noteq> 10"
      proof (cases "strip (replace_all m [] (strip p)) = []")
        case True
        then show ?thesis by (simp add: bracket_space_def)
      next
        case ne: False
        with strip_last_not_space [OF ne] isspace_10 show ?thesis
          by (auto simp: bracket_space_def)
      qed
    qed
    from assms(2) Some False show ?thesis
      by (auto simp: step_qa6_def Let_def t split: if_splits sum.splits)
  qed
qed

lemma qa6_reachable_no_newline:
  assumes "run_loop step_qa6 (initial_state []) ps = Inr st"
  shows "current_question st = [] \<or> last (current_question st) \<noteq> 10"
  by (rule run_loop_invariant [OF assms, where I = "\<lambda>s. current_question s = [] \<or> last (current_question s) \<noteq> 10"])
     (simp add: initial_state_def, rule step_qa6_no_newline)

text \<open>C4. Under variant E, in every state the loop reaches, a non-empty line without a
  bracketed numeral that arrives while a record is open is appended to the question text
  when that text ends with the tseg U+0F0B, and to the answer buffer otherwise. The step
  reads the state and the line only.\<close>

theorem qa6_continuation:
  assumes "run_loop step_qa6 (initial_state []) ps = Inr st"
    and "strip p \<noteq> []"
    and "question_pattern_search (strip p) = None"
    and "current_question st \<noteq> []"
  shows "step_qa6 st p =
           Inr (if last (current_question st) = 3851
                then st\<lparr>current_question := current_question st @ [32] @ strip p\<rparr>
                else st\<lparr>current_answer := current_answer st @ [strip p]\<rparr>)"
proof -
  from qa6_reachable_no_newline [OF assms(1)] assms(4)
  have "last (current_question st) \<noteq> 10" by simp
  with assms(4) have "tseg_search (current_question st) \<longleftrightarrow> last (current_question st) = 3851"
    by (simp add: tseg_search_def)
  with assms show ?thesis by (simp add: step_qa6_def Let_def)
qed


theorem qa6_continuation_witness:
  "run_loop step_qa6 (initial_state []) [[3900, 3873, 3901, 32, 3904, 3851]] =
     Inr \<lparr>parsed_questions = [], parsed_answers = [],
          current_question = [3873, 3901, 32, 3904, 3851], current_answer = [],
          question_counter = 1, is_question = False, is_answer = False\<rparr>
   \<and> strip [3905] \<noteq> []
   \<and> question_pattern_search (strip [3905]) = None
   \<and> step_qa6 \<lparr>parsed_questions = [], parsed_answers = [],
          current_question = [3873, 3901, 32, 3904, 3851], current_answer = [],
          question_counter = 1, is_question = False, is_answer = False\<rparr> [3905] =
     Inr \<lparr>parsed_questions = [], parsed_answers = [],
          current_question = [3873, 3901, 32, 3904, 3851, 32, 3905], current_answer = [],
          question_counter = 1, is_question = False, is_answer = False\<rparr>"
proof -
  let ?st = "\<lparr>parsed_questions = [], parsed_answers = [],
          current_question = [3873, 3901, 32, 3904, 3851], current_answer = [],
          question_counter = 1, is_question = False, is_answer = False\<rparr> :: ustr parser_state"
  have s: "strip [3900, 3873, 3901, 32, 3904, 3851] = [3900, 3873, 3901, 32, 3904, 3851]"
    "strip [3905] = [3905]" "strip [32, 3904, 3851] = [3904, 3851]"
    by (simp_all add: strip_def lstrip_def rstrip_def isspace_def)
  have q: "question_pattern_search [3900, 3873, 3901, 32, 3904, 3851] = Some [3900, 3873, 3901]"
    "question_pattern_search [3905] = None"
    by (simp_all add: question_pattern_match_at_def tib_digit_def isspace_def)
  have r: "replace_all [3900, 3873, 3901] [] [3900, 3873, 3901, 32, 3904, 3851] = [32, 3904, 3851]"
    by (simp add: startswith_def)
  have n: "int_to_tibetan 1 = Inr [3873]"
    by (simp add: int_to_tibetan_def str_int_def str_nat.simps int_of_char_def index_def
        TIBETAN_DIGITS_def)
  have run: "run_loop step_qa6 (initial_state []) [[3900, 3873, 3901, 32, 3904, 3851]] = Inr ?st"
    by (simp add: step_qa6_def Let_def s q r n initial_state_def bracket_space_def
        del: question_pattern_search.simps replace_all.simps)
  show ?thesis
    using qa6_continuation [OF run, of "[3905]"]
    by (simp add: s q run del: question_pattern_search.simps run_loop.simps)
qed

subsection \<open>Indices and counts: shared facts\<close>

lemma str_int_succ: "str_int (int n + 1) = str_nat (Suc n)"
  by (simp add: str_int_def nat_add_distrib)

lemma int_to_tibetan_numeral_succ: "int_to_tibetan_numeral (int n + 1) = Inr (encode_spec (Suc n))"
  by (simp add: int_to_tibetan_numeral_def str_int_succ join_digits_str_nat)

lemma int_to_tibetan_succ: "int_to_tibetan (int n + 1) = Inr (encode_spec (Suc n))"
  by (simp add: int_to_tibetan_def str_int_succ join_digits_str_nat)

lemma convert_to_tibetan_number_succ:
  "convert_to_tibetan_number (int n + 1) = Inr (tibetan_index (Suc n))"
  by (simp add: convert_to_tibetan_number_def str_int_succ join_digits_str_nat tibetan_index_def)

lemma startswith_append: "startswith (a @ b) a"
  by (simp add: startswith_def)

lemma startswith_index: "startswith (num @ bracket_space @ t) (num @ [closing_glyph])"
  by (simp add: startswith_def bracket_space_def closing_glyph_def)

lemma indexed_run_Nil: "indexed_run tok []"
  by (simp add: indexed_run_def)

lemma indexed_run_snoc:
  "indexed_run tok (es @ [e]) \<longleftrightarrow> indexed_run tok es \<and> startswith e (tok (Suc (length es)))"
  by (auto simp: indexed_run_def nth_append less_Suc_eq)

lemma count_lines_snoc:
  "count_lines c (ps @ [p]) = count_lines c ps + (if c (strip p) then 1 else 0)"
  by (simp add: count_lines_def)

lemma count_lines_Nil: "count_lines c [] = 0"
  by (simp add: count_lines_def)

subsection \<open>Variant A: the loop of qa_2.py\<close>

lemma initial_number_match_nonempty: "initial_number_match l \<Longrightarrow> l \<noteq> []"
  by (auto simp: initial_number_match_def)

lemma startswith_tibetan_index:
  "startswith (encode_spec n @ bracket_space @ t) (tibetan_index n)"
  by (simp add: startswith_def bracket_space_def closing_glyph_def tibetan_index_def)

lemma qa2_loop:
  "\<exists>st. run_loop step_qa2 (initial_state None) ps = Inr st
     \<and> question_counter st = int (length (parsed_questions st)) + 1
     \<and> length (parsed_answers st) = length (parsed_questions st)
     \<and> indexed_run tibetan_index (parsed_questions st)
     \<and> indexed_run tibetan_index (parsed_answers st)
     \<and> count_lines initial_number_match ps =
         (if truthy (current_question st) then Suc (length (parsed_questions st)) else 0)
     \<and> (\<not> truthy (current_question st) \<longrightarrow> parsed_questions st = [])"
proof (induction ps rule: rev_induct)
  case Nil
  show ?case by (simp add: initial_state_def truthy_def indexed_run_Nil count_lines_Nil)
next
  case (snoc p ps)
  then obtain st where run: "run_loop step_qa2 (initial_state None) ps = Inr st"
    and c: "question_counter st = int (length (parsed_questions st)) + 1"
    and l: "length (parsed_answers st) = length (parsed_questions st)"
    and iq: "indexed_run tibetan_index (parsed_questions st)"
    and ia: "indexed_run tibetan_index (parsed_answers st)"
    and k: "count_lines initial_number_match ps =
         (if truthy (current_question st) then Suc (length (parsed_questions st)) else 0)"
    and e: "\<not> truthy (current_question st) \<longrightarrow> parsed_questions st = []"
    by auto
  have num: "int_to_tibetan_numeral (question_counter st) =
      Inr (encode_spec (Suc (length (parsed_questions st))))"
    by (simp only: c int_to_tibetan_numeral_succ)
  show ?case
  proof (cases "initial_number_match (strip p)")
    case True
    then have ne: "strip p \<noteq> []" by (rule initial_number_match_nonempty)
    show ?thesis
    proof (cases "truthy (current_question st)")
      case tr: True
      have step: "step_qa2 st p =
          Inr (st\<lparr>parsed_questions := parsed_questions st @
                    [encode_spec (Suc (length (parsed_questions st))) @ bracket_space @
                     clean_question_text_qa2 (the (current_question st))],
                  parsed_answers := parsed_answers st @
                    [encode_spec (Suc (length (parsed_questions st))) @ bracket_space @
                     join [10] (map remove_answer_prefix (current_answer st))],
                  question_counter := question_counter st + 1,
                  current_question := Some (strip p), current_answer := []\<rparr>)"
        using True ne tr
        by (simp add: step_qa2_def Let_def process_current_qa_qa2_def num)
      show ?thesis
        using True ne tr c l iq ia k
        by (simp add: run_loop_snoc run step count_lines_snoc indexed_run_snoc truthy_def
            startswith_tibetan_index)
    next
      case fl: False
      have step: "step_qa2 st p = Inr (st\<lparr>current_question := Some (strip p), current_answer := []\<rparr>)"
        using True ne fl by (simp add: step_qa2_def Let_def)
      show ?thesis
        using True ne fl c l iq ia k e
        by (simp add: run_loop_snoc run step count_lines_snoc truthy_def)
    qed
  next
    case False
    have step: "step_qa2 st p =
        Inr (if strip p = [] then st else st\<lparr>current_answer := current_answer st @ [strip p]\<rparr>)"
      using False by (simp add: step_qa2_def Let_def)
    show ?thesis
      using False c l iq ia k e
      by (simp add: run_loop_snoc run step count_lines_snoc)
  qed
qed

lemma qa2_result:
  "\<exists>qs as. parse_docx_qa2 ps = Inr (qs, as)
     \<and> length qs = count_lines initial_number_match ps
     \<and> length as = count_lines initial_number_match ps
     \<and> indexed_run tibetan_index qs \<and> indexed_run tibetan_index as"
proof -
  from qa2_loop [of ps] obtain st where run: "run_loop step_qa2 (initial_state None) ps = Inr st"
    and c: "question_counter st = int (length (parsed_questions st)) + 1"
    and l: "length (parsed_answers st) = length (parsed_questions st)"
    and iq: "indexed_run tibetan_index (parsed_questions st)"
    and ia: "indexed_run tibetan_index (parsed_answers st)"
    and k: "count_lines initial_number_match ps =
         (if truthy (current_question st) then Suc (length (parsed_questions st)) else 0)"
    and e: "\<not> truthy (current_question st) \<longrightarrow> parsed_questions st = []"
    by auto
  have num: "int_to_tibetan_numeral (question_counter st) =
      Inr (encode_spec (Suc (length (parsed_questions st))))"
    by (simp only: c int_to_tibetan_numeral_succ)
  show ?thesis
  proof (cases "truthy (current_question st)")
    case True
    then show ?thesis
      using l iq ia k
      by (simp add: parse_docx_qa2_def run process_current_qa_qa2_def num
          indexed_run_snoc startswith_tibetan_index)
  next
    case False
    then show ?thesis
      using l iq ia k e
      by (simp add: parse_docx_qa2_def run)
  qed
qed

subsection \<open>Variant B: the loop of qa_3.py\<close>

lemma question_number_match_nonempty: "question_number_match l \<Longrightarrow> l \<noteq> []"
  by (auto simp: question_number_match_def)

lemma not_startswith_Nil_qa3: "\<not> startswith [] answer_prefix_qa3"
  by (simp add: startswith_def answer_prefix_qa3_def)

lemma emit_qa3_succ:
  assumes "question_counter s = int (length (parsed_questions s)) + 1"
  shows "emit_qa3 s =
     Inr (s\<lparr>parsed_questions := parsed_questions s @
               [encode_spec (Suc (length (parsed_questions s))) @ bracket_space @
                clean_question_text_qa3 (current_question s)],
             parsed_answers := parsed_answers s @
               [encode_spec (Suc (length (parsed_questions s))) @ bracket_space @
                join [10] (current_answer s)]\<rparr>)"
  by (simp add: emit_qa3_def assms int_to_tibetan_numeral_succ)

text \<open>One step of the loop of qa_3.py keeps the counter one ahead of the entries.\<close>

lemma step_qa3_invariant:
  assumes c: "question_counter s = int (length (parsed_questions s)) + 1"
    and l: "length (parsed_answers s) = length (parsed_questions s)"
    and iq: "indexed_run tibetan_index (parsed_questions s)"
    and ia: "indexed_run tibetan_index (parsed_answers s)"
  shows "\<exists>s'. step_qa3 s p = Inr s'
     \<and> question_counter s' = int (length (parsed_questions s')) + 1
     \<and> length (parsed_answers s') = length (parsed_questions s')
     \<and> indexed_run tibetan_index (parsed_questions s')
     \<and> indexed_run tibetan_index (parsed_answers s')"
  using c l iq ia
  by (simp add: step_qa3_def Let_def emit_qa3_succ [OF c] indexed_run_snoc
      startswith_tibetan_index)

lemma qa3_loop:
  "\<exists>st. run_loop step_qa3 (initial_state []) ps = Inr st
     \<and> question_counter st = int (length (parsed_questions st)) + 1
     \<and> length (parsed_answers st) = length (parsed_questions st)
     \<and> indexed_run tibetan_index (parsed_questions st)
     \<and> indexed_run tibetan_index (parsed_answers st)"
proof (induction ps rule: rev_induct)
  case Nil
  show ?case by (simp add: initial_state_def indexed_run_Nil)
next
  case (snoc p ps)
  then obtain st where run: "run_loop step_qa3 (initial_state []) ps = Inr st"
    and c: "question_counter st = int (length (parsed_questions st)) + 1"
    and l: "length (parsed_answers st) = length (parsed_questions st)"
    and iq: "indexed_run tibetan_index (parsed_questions st)"
    and ia: "indexed_run tibetan_index (parsed_answers st)"
    by auto
  from step_qa3_invariant [OF c l iq ia, of p] show ?case
    by (simp add: run_loop_snoc run)
qed

lemma qa3_result:
  "\<exists>qs as. parse_docx_qa3 ps = Inr (qs, as) \<and> length as = length qs
     \<and> indexed_run tibetan_index qs \<and> indexed_run tibetan_index as"
proof -
  from qa3_loop [of ps] obtain st where run: "run_loop step_qa3 (initial_state []) ps = Inr st"
    and c: "question_counter st = int (length (parsed_questions st)) + 1"
    and l: "length (parsed_answers st) = length (parsed_questions st)"
    and iq: "indexed_run tibetan_index (parsed_questions st)"
    and ia: "indexed_run tibetan_index (parsed_answers st)"
    by auto
  show ?thesis
    using l iq ia
    by (simp add: parse_docx_qa3_def run emit_qa3_succ [OF c] indexed_run_snoc
        startswith_tibetan_index)
qed

text \<open>The lines between two question lines leave the entries alone; they fill the
  answer buffer exactly when one of them starts with the answer keyword.\<close>

lemma step_qa3_plain:
  assumes "\<not> question_number_match (strip p)"
    and "is_answer s \<longrightarrow> current_answer s \<noteq> []"
  shows "\<exists>s1. step_qa3 s p = Inr s1
     \<and> parsed_questions s1 = parsed_questions s
     \<and> parsed_answers s1 = parsed_answers s
     \<and> question_counter s1 = question_counter s
     \<and> (current_question s \<noteq> [] \<longrightarrow> current_question s1 \<noteq> [])
     \<and> (is_answer s1 \<longrightarrow> current_answer s1 \<noteq> [])
     \<and> (current_answer s1 \<noteq> [] \<longleftrightarrow>
          current_answer s \<noteq> [] \<or> startswith (strip p) answer_prefix_qa3)"
proof (cases "strip p = []")
  case True
  with assms show ?thesis
    by (simp add: step_qa3_def not_startswith_Nil_qa3)
next
  case ne: False
  show ?thesis
  proof (cases "startswith (strip p) answer_prefix_qa3")
    case True
    with assms ne show ?thesis by (simp add: step_qa3_def Let_def)
  next
    case ns: False
    show ?thesis
    proof (cases "is_answer s")
      case True
      with assms ne ns show ?thesis by (simp add: step_qa3_def Let_def)
    next
      case False
      with assms ne ns show ?thesis by (simp add: step_qa3_def Let_def)
    qed
  qed
qed

lemma qa3_body:
  assumes "\<forall>p \<in> set body. \<not> question_number_match (strip p)"
    and "is_answer s \<longrightarrow> current_answer s \<noteq> []"
  shows "\<exists>s'. run_loop step_qa3 s body = Inr s'
     \<and> parsed_questions s' = parsed_questions s
     \<and> parsed_answers s' = parsed_answers s
     \<and> question_counter s' = question_counter s
     \<and> (current_question s \<noteq> [] \<longrightarrow> current_question s' \<noteq> [])
     \<and> (is_answer s' \<longrightarrow> current_answer s' \<noteq> [])
     \<and> (current_answer s' \<noteq> [] \<longleftrightarrow> current_answer s \<noteq> [] \<or> answered_qa3 body)"
  using assms
proof (induction body arbitrary: s)
  case Nil
  show ?case using Nil by (simp add: answered_qa3_def)
next
  case (Cons p body)
  from Cons.prems have nq: "\<not> question_number_match (strip p)"
    and rest: "\<forall>p \<in> set body. \<not> question_number_match (strip p)" by simp_all
  from step_qa3_plain [OF nq Cons.prems(2)]
  obtain s1 where s1: "step_qa3 s p = Inr s1"
    and pq: "parsed_questions s1 = parsed_questions s"
    and pa: "parsed_answers s1 = parsed_answers s"
    and qc: "question_counter s1 = question_counter s"
    and cq: "current_question s \<noteq> [] \<longrightarrow> current_question s1 \<noteq> []"
    and ia: "is_answer s1 \<longrightarrow> current_answer s1 \<noteq> []"
    and ca: "current_answer s1 \<noteq> [] \<longleftrightarrow>
               current_answer s \<noteq> [] \<or> startswith (strip p) answer_prefix_qa3"
    by auto
  from Cons.IH [OF rest ia] obtain s' where
    "run_loop step_qa3 s1 body = Inr s'"
    "parsed_questions s' = parsed_questions s1"
    "parsed_answers s' = parsed_answers s1"
    "question_counter s' = question_counter s1"
    "current_question s1 \<noteq> [] \<longrightarrow> current_question s' \<noteq> []"
    "is_answer s' \<longrightarrow> current_answer s' \<noteq> []"
    "current_answer s' \<noteq> [] \<longleftrightarrow> current_answer s1 \<noteq> [] \<or> answered_qa3 body"
    by auto
  with s1 pq pa qc cq ca show ?case
    by (auto simp: answered_qa3_def)
qed

lemma stream_of_snoc: "stream_of (segs @ [seg]) = stream_of segs @ (fst seg # snd seg)"
  by (simp add: stream_of_def)

lemma qa3_segments:
  assumes "\<forall>seg \<in> set segs. question_number_match (strip (fst seg))
             \<and> (\<forall>p \<in> set (snd seg). \<not> question_number_match (strip p))"
    and "\<forall>seg \<in> set (butlast segs). answered_qa3 (snd seg)"
  shows "\<exists>st. run_loop step_qa3 (initial_state []) (stream_of segs) = Inr st
     \<and> question_counter st = int (length (parsed_questions st)) + 1
     \<and> length (parsed_answers st) = length (parsed_questions st)
     \<and> (is_answer st \<longrightarrow> current_answer st \<noteq> [])
     \<and> (segs = [] \<longrightarrow> current_question st = [] \<and> current_answer st = [])
     \<and> (segs \<noteq> [] \<longrightarrow> current_question st \<noteq> []
          \<and> (current_answer st \<noteq> [] \<longleftrightarrow> answered_qa3 (snd (last segs))))
     \<and> length (parsed_questions st) = length segs - 1"
  using assms
proof (induction segs rule: rev_induct)
  case Nil
  show ?case by (simp add: stream_of_def initial_state_def)
next
  case (snoc seg segs)
  from snoc.prems have wf: "\<forall>seg \<in> set segs. question_number_match (strip (fst seg))
             \<and> (\<forall>p \<in> set (snd seg). \<not> question_number_match (strip p))"
    and qm: "question_number_match (strip (fst seg))"
    and body: "\<forall>p \<in> set (snd seg). \<not> question_number_match (strip p)"
    and ans: "\<forall>seg \<in> set segs. answered_qa3 (snd seg)"
    by simp_all
  from ans have ans': "\<forall>seg \<in> set (butlast segs). answered_qa3 (snd seg)"
    by (auto dest: in_set_butlastD)
  from snoc.IH [OF wf ans'] obtain st where
    run: "run_loop step_qa3 (initial_state []) (stream_of segs) = Inr st"
    and c: "question_counter st = int (length (parsed_questions st)) + 1"
    and l: "length (parsed_answers st) = length (parsed_questions st)"
    and e: "segs = [] \<longrightarrow> current_question st = [] \<and> current_answer st = []"
    and o: "segs \<noteq> [] \<longrightarrow> current_question st \<noteq> []
          \<and> (current_answer st \<noteq> [] \<longleftrightarrow> answered_qa3 (snd (last segs)))"
    and n: "length (parsed_questions st) = length segs - 1"
    by auto
  from qm have ne: "strip (fst seg) \<noteq> []" by (rule question_number_match_nonempty)
  have "\<exists>s1. step_qa3 st (fst seg) = Inr s1
      \<and> question_counter s1 = int (length (parsed_questions s1)) + 1
      \<and> length (parsed_answers s1) = length (parsed_questions s1)
      \<and> current_question s1 \<noteq> [] \<and> current_answer s1 = [] \<and> \<not> is_answer s1
      \<and> length (parsed_questions s1) = length segs"
  proof (cases "segs = []")
    case True
    with e n c l qm ne show ?thesis
      by (simp add: step_qa3_def Let_def)
  next
    case False
    with o ans have "current_question st \<noteq> []" "current_answer st \<noteq> []" by simp_all
    moreover from False n have "length segs = Suc (length (parsed_questions st))"
      by (cases segs) simp_all
    ultimately show ?thesis
      using l qm ne
      by (simp add: step_qa3_def Let_def emit_qa3_succ [OF c] c)
  qed
  then obtain s1 where s1: "step_qa3 st (fst seg) = Inr s1"
    and c1: "question_counter s1 = int (length (parsed_questions s1)) + 1"
    and l1: "length (parsed_answers s1) = length (parsed_questions s1)"
    and q1: "current_question s1 \<noteq> []" and a1: "current_answer s1 = []"
    and f1: "\<not> is_answer s1"
    and n1: "length (parsed_questions s1) = length segs"
    by auto
  from f1 have "is_answer s1 \<longrightarrow> current_answer s1 \<noteq> []" by simp
  from qa3_body [OF body this] obtain s' where
    "run_loop step_qa3 s1 (snd seg) = Inr s'"
    "parsed_questions s' = parsed_questions s1"
    "parsed_answers s' = parsed_answers s1"
    "question_counter s' = question_counter s1"
    "current_question s1 \<noteq> [] \<longrightarrow> current_question s' \<noteq> []"
    "is_answer s' \<longrightarrow> current_answer s' \<noteq> []"
    "current_answer s' \<noteq> [] \<longleftrightarrow> current_answer s1 \<noteq> [] \<or> answered_qa3 (snd seg)"
    by auto
  with s1 c1 l1 q1 a1 n1 show ?case
    by (simp add: stream_of_snoc run_loop_append run)
qed

lemma count_lines_append:
  "count_lines c (ps @ qs) = count_lines c ps + count_lines c qs"
  by (simp add: count_lines_def)

lemma count_lines_none: "\<forall>p \<in> set ps. \<not> c (strip p) \<Longrightarrow> count_lines c ps = 0"
  by (simp add: count_lines_def)

lemma count_lines_stream_of:
  assumes "\<forall>seg \<in> set segs. c (strip (fst seg)) \<and> (\<forall>p \<in> set (snd seg). \<not> c (strip p))"
  shows "count_lines c (stream_of segs) = length segs"
  using assms
proof (induction segs rule: rev_induct)
  case Nil
  show ?case by (simp add: stream_of_def count_lines_def)
next
  case (snoc seg segs)
  then have "count_lines c (snd seg) = 0" by (simp add: count_lines_none)
  with snoc show ?case
    by (simp add: stream_of_snoc count_lines_append count_lines_def)
qed

lemma qa3_well_formed:
  assumes "\<forall>seg \<in> set segs. question_number_match (strip (fst seg))
             \<and> (\<forall>p \<in> set (snd seg). \<not> question_number_match (strip p))"
    and "\<forall>seg \<in> set (butlast segs). answered_qa3 (snd seg)"
  shows "\<exists>qs as. parse_docx_qa3 (stream_of segs) = Inr (qs, as)
     \<and> length as = length qs
     \<and> length qs = (if segs \<noteq> [] \<and> answered_qa3 (snd (last segs))
                    then count_lines question_number_match (stream_of segs)
                    else count_lines question_number_match (stream_of segs) - 1)"
proof -
  from qa3_segments [OF assms] obtain st where
    run: "run_loop step_qa3 (initial_state []) (stream_of segs) = Inr st"
    and c: "question_counter st = int (length (parsed_questions st)) + 1"
    and l: "length (parsed_answers st) = length (parsed_questions st)"
    and e: "segs = [] \<longrightarrow> current_question st = [] \<and> current_answer st = []"
    and o: "segs \<noteq> [] \<longrightarrow> current_question st \<noteq> []
          \<and> (current_answer st \<noteq> [] \<longleftrightarrow> answered_qa3 (snd (last segs)))"
    and n: "length (parsed_questions st) = length segs - 1"
    by auto
  have k: "count_lines question_number_match (stream_of segs) = length segs"
    by (rule count_lines_stream_of) (rule assms(1))
  from e o have em: "(current_question st \<noteq> [] \<and> current_answer st \<noteq> []) \<longleftrightarrow>
      (segs \<noteq> [] \<and> answered_qa3 (snd (last segs)))" by auto
  show ?thesis
  proof (cases "current_question st \<noteq> [] \<and> current_answer st \<noteq> []")
    case True
    with em have s: "segs \<noteq> [] \<and> answered_qa3 (snd (last segs))" by simp
    with n have "length segs = Suc (length (parsed_questions st))" by (cases segs) simp_all
    with True s l show ?thesis
      by (simp add: parse_docx_qa3_def run emit_qa3_succ [OF c] k)
  next
    case False
    with em have s: "\<not> (segs \<noteq> [] \<and> answered_qa3 (snd (last segs)))" by simp
    have p: "parse_docx_qa3 (stream_of segs) = Inr (parsed_questions st, parsed_answers st)"
      using False by (auto simp: parse_docx_qa3_def run)
    from s l n show ?thesis unfolding p k by auto
  qed
qed

subsection \<open>Variant C: the loop of qa_4.py\<close>

lemma startswith_arabic_index:
  "startswith (str_nat n @ bracket_space @ t) (arabic_index n)"
  by (simp add: startswith_def bracket_space_def closing_glyph_def arabic_index_def)

lemma question_start_match_nonempty: "question_start_match l \<Longrightarrow> l \<noteq> []"
  by (auto simp: question_start_match_def)

lemma step_qa4_invariant:
  assumes c: "question_counter s = int (length (parsed_questions s)) + 1"
    and l: "length (parsed_answers s) = length (parsed_questions s)"
    and iq: "indexed_run arabic_index (parsed_questions s)"
    and ia: "indexed_run arabic_index (parsed_answers s)"
  shows "question_counter (step_qa4 s p) = int (length (parsed_questions (step_qa4 s p))) + 1
     \<and> length (parsed_answers (step_qa4 s p)) = length (parsed_questions (step_qa4 s p))
     \<and> indexed_run arabic_index (parsed_questions (step_qa4 s p))
     \<and> indexed_run arabic_index (parsed_answers (step_qa4 s p))
     \<and> length (parsed_questions (step_qa4 s p))
          + (if truthy (current_question (step_qa4 s p)) then 1 else 0) =
        length (parsed_questions s) + (if truthy (current_question s) then 1 else 0)
          + (if question_start_match (strip p) \<and> clean_question_text_qa4 (strip p) \<noteq> []
             then 1 else 0)"
proof (cases "question_start_match (strip p)")
  case True
  then have ne: "strip p \<noteq> []" by (rule question_start_match_nonempty)
  show ?thesis
  proof (cases "truthy (current_question s)")
    case tr: True
    with True ne c l iq ia show ?thesis
      by (simp add: step_qa4_def Let_def process_current_qa_qa4_def str_int_succ
          indexed_run_snoc startswith_arabic_index truthy_def)
  next
    case False
    with True ne c l iq ia show ?thesis
      by (simp add: step_qa4_def Let_def truthy_def)
  qed
next
  case False
  with c l iq ia show ?thesis
    by (simp add: step_qa4_def Let_def)
qed

lemma qa4_loop:
  "question_counter (foldl step_qa4 (initial_state None) ps) =
     int (length (parsed_questions (foldl step_qa4 (initial_state None) ps))) + 1
   \<and> length (parsed_answers (foldl step_qa4 (initial_state None) ps)) =
     length (parsed_questions (foldl step_qa4 (initial_state None) ps))
   \<and> indexed_run arabic_index (parsed_questions (foldl step_qa4 (initial_state None) ps))
   \<and> indexed_run arabic_index (parsed_answers (foldl step_qa4 (initial_state None) ps))
   \<and> length (parsed_questions (foldl step_qa4 (initial_state None) ps))
        + (if truthy (current_question (foldl step_qa4 (initial_state None) ps)) then 1 else 0) =
      count_lines (\<lambda>l. question_start_match l \<and> clean_question_text_qa4 l \<noteq> []) ps"
proof (induction ps rule: rev_induct)
  case Nil
  show ?case by (simp add: initial_state_def indexed_run_Nil count_lines_Nil truthy_def)
next
  case (snoc p ps)
  let ?s = "foldl step_qa4 (initial_state None) ps"
  from snoc have c: "question_counter ?s = int (length (parsed_questions ?s)) + 1"
    and l: "length (parsed_answers ?s) = length (parsed_questions ?s)"
    and iq: "indexed_run arabic_index (parsed_questions ?s)"
    and ia: "indexed_run arabic_index (parsed_answers ?s)"
    and k: "length (parsed_questions ?s) + (if truthy (current_question ?s) then 1 else 0) =
      count_lines (\<lambda>l. question_start_match l \<and> clean_question_text_qa4 l \<noteq> []) ps"
    by simp_all
  from step_qa4_invariant [OF c l iq ia, of p] k show ?case
    by (simp add: count_lines_snoc)
qed

lemma qa4_result:
  "length (fst (parse_docx_qa4 ps)) =
     count_lines (\<lambda>l. question_start_match l \<and> clean_question_text_qa4 l \<noteq> []) ps
   \<and> length (snd (parse_docx_qa4 ps)) = length (fst (parse_docx_qa4 ps))
   \<and> indexed_run arabic_index (fst (parse_docx_qa4 ps))
   \<and> indexed_run arabic_index (snd (parse_docx_qa4 ps))"
proof -
  let ?s = "foldl step_qa4 (initial_state None) ps"
  from qa4_loop [of ps] have c: "question_counter ?s = int (length (parsed_questions ?s)) + 1"
    and l: "length (parsed_answers ?s) = length (parsed_questions ?s)"
    and iq: "indexed_run arabic_index (parsed_questions ?s)"
    and ia: "indexed_run arabic_index (parsed_answers ?s)"
    and k: "length (parsed_questions ?s) + (if truthy (current_question ?s) then 1 else 0) =
      count_lines (\<lambda>l. question_start_match l \<and> clean_question_text_qa4 l \<noteq> []) ps"
    by simp_all
  show ?thesis
  proof (cases "truthy (current_question ?s)")
    case True
    with c l iq ia k show ?thesis
      by (simp add: parse_docx_qa4_def Let_def process_current_qa_qa4_def str_int_succ
          indexed_run_snoc startswith_arabic_index)
  next
    case False
    with c l iq ia k show ?thesis
      by (simp add: parse_docx_qa4_def Let_def)
  qed
qed

subsection \<open>Variant D: the entries of qa_5.py\<close>

lemma step_qa5_invariant:
  assumes c: "question_counter s = int (length (parsed_questions s)) + 1"
    and l: "length (parsed_answers s) = length (parsed_questions s)"
    and iq: "indexed_run arabic_index (parsed_questions s)"
    and ia: "indexed_run arabic_index (parsed_answers s)"
  shows "question_counter (step_qa5 s p) = int (length (parsed_questions (step_qa5 s p))) + 1
     \<and> length (parsed_answers (step_qa5 s p)) = length (parsed_questions (step_qa5 s p))
     \<and> indexed_run arabic_index (parsed_questions (step_qa5 s p))
     \<and> indexed_run arabic_index (parsed_answers (step_qa5 s p))"
proof (cases "strip p \<noteq> [] \<and> alphabet_match (strip p)
              \<and> (current_question s \<noteq> [] \<or> current_answer s \<noteq> [])")
  case True
  then have "step_qa5 s p =
     s\<lparr>parsed_questions := parsed_questions s @
          [str_nat (Suc (length (parsed_questions s))) @ bracket_space @
           strip (alphabet_sub (strip (join [32] (current_question s))))],
       parsed_answers := parsed_answers s @
          [str_nat (Suc (length (parsed_questions s))) @ bracket_space @
           strip (join [32] (current_answer s))],
       question_counter := question_counter s + 1,
       current_question := [strip p], current_answer := []\<rparr>"
    by (auto simp: step_qa5_def Let_def process_current_qa_qa5_def c str_int_succ)
  with c l iq ia show ?thesis
    by (simp add: indexed_run_snoc startswith_arabic_index)
next
  case False
  then have "parsed_questions (step_qa5 s p) = parsed_questions s
     \<and> parsed_answers (step_qa5 s p) = parsed_answers s
     \<and> question_counter (step_qa5 s p) = question_counter s"
    by (auto simp: step_qa5_def Let_def)
  with c l iq ia show ?thesis by simp
qed

lemma qa5_loop:
  "question_counter (foldl step_qa5 (initial_state []) ps) =
     int (length (parsed_questions (foldl step_qa5 (initial_state []) ps))) + 1
   \<and> length (parsed_answers (foldl step_qa5 (initial_state []) ps)) =
     length (parsed_questions (foldl step_qa5 (initial_state []) ps))
   \<and> indexed_run arabic_index (parsed_questions (foldl step_qa5 (initial_state []) ps))
   \<and> indexed_run arabic_index (parsed_answers (foldl step_qa5 (initial_state []) ps))"
proof (induction ps rule: rev_induct)
  case Nil
  show ?case by (simp add: initial_state_def indexed_run_Nil)
next
  case (snoc p ps)
  let ?s = "foldl step_qa5 (initial_state []) ps"
  from snoc have c: "question_counter ?s = int (length (parsed_questions ?s)) + 1"
    and l: "length (parsed_answers ?s) = length (parsed_questions ?s)"
    and iq: "indexed_run arabic_index (parsed_questions ?s)"
    and ia: "indexed_run arabic_index (parsed_answers ?s)"
    by simp_all
  from step_qa5_invariant [OF c l iq ia, of p] show ?case by simp
qed

lemma qa5_result:
  "length (snd (parse_docx_qa5 ps)) = length (fst (parse_docx_qa5 ps))
   \<and> indexed_run arabic_index (fst (parse_docx_qa5 ps))
   \<and> indexed_run arabic_index (snd (parse_docx_qa5 ps))"
proof -
  let ?s = "foldl step_qa5 (initial_state []) ps"
  from qa5_loop [of ps] have c: "question_counter ?s = int (length (parsed_questions ?s)) + 1"
    and l: "length (parsed_answers ?s) = length (parsed_questions ?s)"
    and iq: "indexed_run arabic_index (parsed_questions ?s)"
    and ia: "indexed_run arabic_index (parsed_answers ?s)"
    by simp_all
  show ?thesis
  proof (cases "current_question ?s \<noteq> [] \<or> current_answer ?s \<noteq> []")
    case True
    then have "parse_docx_qa5 ps =
        (parsed_questions ?s @
          [str_nat (Suc (length (parsed_questions ?s))) @ bracket_space @
           strip (alphabet_sub (strip (join [32] (current_question ?s))))],
         parsed_answers ?s @
          [str_nat (Suc (length (parsed_questions ?s))) @ bracket_space @
           strip (join [32] (current_answer ?s))])"
      by (auto simp: parse_docx_qa5_def Let_def process_current_qa_qa5_def c str_int_succ)
    with l iq ia show ?thesis
      by (simp add: indexed_run_snoc startswith_arabic_index)
  next
    case False
    then have "parse_docx_qa5 ps = (parsed_questions ?s, parsed_answers ?s)"
      by (auto simp: parse_docx_qa5_def Let_def)
    with l iq ia show ?thesis by simp
  qed
qed

subsection \<open>Variant E: the entries of qa_6.py\<close>

lemma question_pattern_search_nonempty: "question_pattern_search l \<noteq> None \<Longrightarrow> l \<noteq> []"
  by (cases l) simp_all

lemma dropWhile_append_keep:
  "ys \<noteq> [] \<Longrightarrow> \<not> P (hd ys) \<Longrightarrow> dropWhile P (xs @ ys) = dropWhile P xs @ ys"
  by (induction xs) (auto, cases ys, auto)

lemma startswith_strip:
  assumes "startswith s t" and "t \<noteq> []" and "\<not> isspace (hd t)" and "\<not> isspace (last t)"
  shows "startswith (strip s) t"
proof -
  from assms(1) have "take (length t) s = t" by (simp add: startswith_def)
  then have "s = t @ drop (length t) s" by (metis append_take_drop_id)
  then obtain r where s: "s = t @ r" ..
  have 1: "dropWhile isspace (t @ r) = t @ r" using assms(2,3) by (cases t) auto
  from assms(2,4) have "rev t \<noteq> []" "\<not> isspace (hd (rev t))" by (simp_all add: hd_rev)
  then have 2: "dropWhile isspace (rev r @ rev t) = dropWhile isspace (rev r) @ rev t"
    by (rule dropWhile_append_keep)
  show ?thesis by (simp add: strip_def lstrip_def rstrip_def s 1 2 startswith_def)
qed

lemma startswith_append_left: "startswith s t \<Longrightarrow> startswith (s @ r) t"
  by (auto simp: startswith_def take_append dest: arg_cong [where f = length])

lemma base10_digits_nonempty: "base10_digits n \<noteq> []"
  by (subst base10_digits.simps) simp

lemma encode_spec_nonempty: "encode_spec n \<noteq> []"
  by (simp add: encode_spec_def base10_digits_nonempty)

lemma encode_spec_digits: "g \<in> set (encode_spec n) \<Longrightarrow> tib_digit g"
proof -
  assume "g \<in> set (encode_spec n)"
  then obtain d where d: "d \<in> set (base10_digits n)" and g: "g = TIBETAN_DIGITS ! d"
    by (auto simp: encode_spec_def)
  from d have "d < 10" by (rule base10_digits_lt)
  then have "d = 0 \<or> d = 1 \<or> d = 2 \<or> d = 3 \<or> d = 4 \<or> d = 5 \<or> d = 6 \<or> d = 7 \<or> d = 8 \<or> d = 9"
    by arith
  with g show "tib_digit g"
    by (auto simp: TIBETAN_DIGITS_def tib_digit_def)
qed

lemma tib_digit_not_space: "tib_digit c \<Longrightarrow> \<not> isspace c"
  by (auto simp: tib_digit_def isspace_def)

lemma tibetan_index_shape:
  "tibetan_index n \<noteq> [] \<and> \<not> isspace (hd (tibetan_index n)) \<and> \<not> isspace (last (tibetan_index n))"
proof -
  have "hd (encode_spec n) \<in> set (encode_spec n)" by (simp add: encode_spec_nonempty)
  then have "\<not> isspace (hd (encode_spec n))"
    by (rule tib_digit_not_space [OF encode_spec_digits])
  then show ?thesis
    by (simp add: tibetan_index_def encode_spec_nonempty closing_glyph_def isspace_def)
qed

lemma startswith_strip_tibetan_index:
  "startswith s (tibetan_index n) \<Longrightarrow> startswith (strip s) (tibetan_index n)"
  using tibetan_index_shape [of n] by (simp add: startswith_strip)

lemma step_qa6_invariant:
  assumes c: "question_counter s = int (length (parsed_questions s)) + 1"
    and l: "length (parsed_answers s) = length (parsed_questions s)"
    and iq: "indexed_run tibetan_index (parsed_questions s)"
    and ia: "indexed_run tibetan_index (parsed_answers s)"
    and o: "current_question s \<noteq> [] \<longrightarrow>
            startswith (current_question s) (tibetan_index (Suc (length (parsed_questions s))))"
  shows "\<exists>s'. step_qa6 s p = Inr s'
     \<and> question_counter s' = int (length (parsed_questions s')) + 1
     \<and> length (parsed_answers s') = length (parsed_questions s')
     \<and> indexed_run tibetan_index (parsed_questions s')
     \<and> indexed_run tibetan_index (parsed_answers s')
     \<and> (current_question s' \<noteq> [] \<longrightarrow>
            startswith (current_question s') (tibetan_index (Suc (length (parsed_questions s')))))
     \<and> length (parsed_questions s') + (if current_question s' \<noteq> [] then 1 else 0) =
         length (parsed_questions s) + (if current_question s \<noteq> [] then 1 else 0)
           + (if question_pattern_search (strip p) \<noteq> None then 1 else 0)"
proof (cases "question_pattern_search (strip p)")
  case None
  show ?thesis
  proof (cases "strip p = []")
    case True
    with None assms show ?thesis by (simp add: step_qa6_def)
  next
    case ne: False
    show ?thesis
    proof (cases "current_question s \<noteq> [] \<and> tseg_search (current_question s)")
      case True
      then have "step_qa6 s p = Inr (s\<lparr>current_question := current_question s @ [32] @ strip p\<rparr>)"
        using None ne by (simp add: step_qa6_def Let_def)
      with True None c l iq ia o show ?thesis
        by (simp add: startswith_append_left)
    next
      case False
      then have "step_qa6 s p = Inr (s\<lparr>current_answer := current_answer s @ [strip p]\<rparr>)"
        using None ne by (auto simp: step_qa6_def Let_def)
      with None c l iq ia o show ?thesis by simp
    qed
  qed
next
  case (Some m)
  then have ne: "strip p \<noteq> []" using question_pattern_search_nonempty [of "strip p"] by simp
  let ?n = "length (parsed_questions s)"
  have num1: "int_to_tibetan (question_counter s) = Inr (encode_spec (Suc ?n))"
    by (simp only: c int_to_tibetan_succ)
  have "question_counter s + 1 = int (Suc ?n) + 1" by (simp add: c)
  then have num2: "int_to_tibetan (question_counter s + 1) = Inr (encode_spec (Suc (Suc ?n)))"
    by (simp only: int_to_tibetan_succ)
  have bs: "bracket_space \<noteq> []" by (simp add: bracket_space_def)
  show ?thesis
  proof (cases "current_question s = []")
    case True
    then have "step_qa6 s p =
        Inr (s\<lparr>current_question := encode_spec (Suc ?n) @ bracket_space @
                  strip (replace_all m [] (strip p))\<rparr>)"
      using Some ne by (simp add: step_qa6_def Let_def num1)
    with True Some c l iq ia show ?thesis
      by (simp add: bs startswith_tibetan_index)
  next
    case False
    then have "step_qa6 s p =
        Inr (s\<lparr>parsed_questions := parsed_questions s @ [strip (current_question s)],
                parsed_answers := parsed_answers s @
                  [encode_spec (Suc ?n) @ bracket_space @ strip (join [10] (current_answer s))],
                current_question := encode_spec (Suc (Suc ?n)) @ bracket_space @
                  strip (replace_all m [] (strip p)),
                current_answer := [],
                question_counter := question_counter s + 1\<rparr>)"
      using Some ne by (simp add: step_qa6_def Let_def emit_qa6_def num1 num2)
    moreover from False o
    have "startswith (strip (current_question s)) (tibetan_index (Suc ?n))"
      by (simp add: startswith_strip_tibetan_index)
    ultimately show ?thesis
      using False Some c l iq ia
      by (simp add: bs startswith_tibetan_index indexed_run_snoc)
  qed
qed

lemma qa6_loop:
  "\<exists>st. run_loop step_qa6 (initial_state []) ps = Inr st
     \<and> question_counter st = int (length (parsed_questions st)) + 1
     \<and> length (parsed_answers st) = length (parsed_questions st)
     \<and> indexed_run tibetan_index (parsed_questions st)
     \<and> indexed_run tibetan_index (parsed_answers st)
     \<and> (current_question st \<noteq> [] \<longrightarrow>
            startswith (current_question st) (tibetan_index (Suc (length (parsed_questions st)))))
     \<and> length (parsed_questions st) + (if current_question st \<noteq> [] then 1 else 0) =
         count_lines (\<lambda>l. question_pattern_search l \<noteq> None) ps"
proof (induction ps rule: rev_induct)
  case Nil
  show ?case by (simp add: initial_state_def indexed_run_Nil count_lines_Nil)
next
  case (snoc p ps)
  then obtain st where run: "run_loop step_qa6 (initial_state []) ps = Inr st"
    and c: "question_counter st = int (length (parsed_questions st)) + 1"
    and l: "length (parsed_answers st) = length (parsed_questions st)"
    and iq: "indexed_run tibetan_index (parsed_questions st)"
    and ia: "indexed_run tibetan_index (parsed_answers st)"
    and o: "current_question st \<noteq> [] \<longrightarrow>
            startswith (current_question st) (tibetan_index (Suc (length (parsed_questions st))))"
    and k: "length (parsed_questions st) + (if current_question st \<noteq> [] then 1 else 0) =
         count_lines (\<lambda>l. question_pattern_search l \<noteq> None) ps"
    by auto
  from step_qa6_invariant [OF c l iq ia o, of p] obtain s' where
    "step_qa6 st p = Inr s'"
    "question_counter s' = int (length (parsed_questions s')) + 1"
    "length (parsed_answers s') = length (parsed_questions s')"
    "indexed_run tibetan_index (parsed_questions s')"
    "indexed_run tibetan_index (parsed_answers s')"
    "current_question s' \<noteq> [] \<longrightarrow>
            startswith (current_question s') (tibetan_index (Suc (length (parsed_questions s'))))"
    "length (parsed_questions s') + (if current_question s' \<noteq> [] then 1 else 0) =
         length (parsed_questions st) + (if current_question st \<noteq> [] then 1 else 0)
           + (if question_pattern_search (strip p) \<noteq> None then 1 else 0)"
    by auto
  with k show ?case
    by (simp add: run_loop_snoc run count_lines_snoc)
qed

lemma qa6_result:
  "\<exists>qs as. process_docx_qa6 ps = Inr (qs, as)
     \<and> length qs = count_lines (\<lambda>l. question_pattern_search l \<noteq> None) ps
     \<and> length as = length qs
     \<and> indexed_run tibetan_index qs \<and> indexed_run tibetan_index as"
proof -
  from qa6_loop [of ps] obtain st where run: "run_loop step_qa6 (initial_state []) ps = Inr st"
    and c: "question_counter st = int (length (parsed_questions st)) + 1"
    and l: "length (parsed_answers st) = length (parsed_questions st)"
    and iq: "indexed_run tibetan_index (parsed_questions st)"
    and ia: "indexed_run tibetan_index (parsed_answers st)"
    and o: "current_question st \<noteq> [] \<longrightarrow>
            startswith (current_question st) (tibetan_index (Suc (length (parsed_questions st))))"
    and k: "length (parsed_questions st) + (if current_question st \<noteq> [] then 1 else 0) =
         count_lines (\<lambda>l. question_pattern_search l \<noteq> None) ps"
    by auto
  have num: "int_to_tibetan (question_counter st) = Inr (encode_spec (Suc (length (parsed_questions st))))"
    by (simp only: c int_to_tibetan_succ)
  show ?thesis
  proof (cases "current_question st = []")
    case True
    with l iq ia k show ?thesis by (simp add: process_docx_qa6_def run)
  next
    case False
    with o have "startswith (strip (current_question st))
        (tibetan_index (Suc (length (parsed_questions st))))"
      by (simp add: startswith_strip_tibetan_index)
    with False l iq ia k show ?thesis
      by (simp add: process_docx_qa6_def run emit_qa6_def num indexed_run_snoc
          startswith_tibetan_index)
  qed
qed

subsection \<open>Variant F: the loop and the files of qa_7.py\<close>

lemma write_entries_from:
  "\<exists>written. write_entries (int n + 1) entries = Inr written
     \<and> length written = length entries
     \<and> (\<forall>i < length entries.
          written ! i = encode_spec (Suc (n + i)) @ bracket_space @ entries ! i @ [10, 10])"
proof (induction entries arbitrary: n)
  case Nil
  show ?case by simp
next
  case (Cons e es)
  from Cons [of "Suc n"] obtain w where w: "write_entries (int (Suc n) + 1) es = Inr w"
    and lw: "length w = length es"
    and iw: "\<forall>i < length es. w ! i = encode_spec (Suc (Suc n + i)) @ bracket_space @ es ! i @ [10, 10]"
    by blast
  have "int n + 1 + 1 = int (Suc n) + 1" by simp
  with w have w': "write_entries (int n + 1 + 1) es = Inr w" by simp
  show ?case
    using w' lw iw
    by (auto simp: int_to_tibetan_succ nth_Cons split: nat.splits)
qed

lemma dotted_index_match_dot: "dotted_index_match decimal t \<Longrightarrow> 46 \<in> set t"
proof -
  assume "dotted_index_match decimal t"
  then have ne: "dropWhile decimal t \<noteq> []" and h: "hd (dropWhile decimal t) = 46"
    by (simp_all add: dotted_index_match_def)
  from ne have "hd (dropWhile decimal t) \<in> set (dropWhile decimal t)" by simp
  with h show ?thesis by (auto dest: set_dropWhileD)
qed

lemma not_dotted_index_match_Nil: "\<not> dotted_index_match decimal []"
  by (simp add: dotted_index_match_def)

lemma not_startswith_Nil_keyword: "\<not> startswith [] answer_keyword"
  by (simp add: startswith_def answer_keyword_def)

lemma step_qa7_invariant:
  assumes fq: "is_question s \<longrightarrow> current_question s \<noteq> []"
    and fa: "is_answer s \<longrightarrow> current_answer s \<noteq> []"
  shows "\<exists>s'. step_qa7 decimal s p = Inr s'
     \<and> (is_question s' \<longrightarrow> current_question s' \<noteq> [])
     \<and> (is_answer s' \<longrightarrow> current_answer s' \<noteq> [])
     \<and> length (parsed_questions s') + (if current_question s' \<noteq> [] then 1 else 0) =
         length (parsed_questions s) + (if current_question s \<noteq> [] then 1 else 0)
           + (if dotted_index_match decimal (strip p) then 1 else 0)
     \<and> length (parsed_answers s') + (if current_answer s' \<noteq> [] then 1 else 0) =
         length (parsed_answers s) + (if current_answer s \<noteq> [] then 1 else 0)
           + (if \<not> dotted_index_match decimal (strip p) \<and> startswith (strip p) answer_keyword
              then 1 else 0)"
proof (cases "strip p = []")
  case True
  with assms show ?thesis
    by (simp add: step_qa7_def not_dotted_index_match_Nil not_startswith_Nil_keyword)
next
  case ne: False
  show ?thesis
  proof (cases "dotted_index_match decimal (strip p)")
    case True
    then have "after_first_dot (strip p) = Inr (tl (dropWhile (\<lambda>c. c \<noteq> 46) (strip p)))"
      by (simp add: after_first_dot_def dotted_index_match_dot)
    with True ne assms show ?thesis
      by (simp add: step_qa7_def Let_def)
  next
    case nd: False
    show ?thesis
    proof (cases "startswith (strip p) answer_keyword")
      case True
      with nd ne assms show ?thesis by (simp add: step_qa7_def Let_def)
    next
      case nk: False
      show ?thesis
      proof (cases "is_question s")
        case True
        with nk nd ne assms show ?thesis by (simp add: step_qa7_def Let_def)
      next
        case nq: False
        show ?thesis
        proof (cases "is_answer s")
          case True
          with nq nk nd ne assms show ?thesis by (simp add: step_qa7_def Let_def)
        next
          case False
          with nq nk nd ne assms show ?thesis by (simp add: step_qa7_def Let_def)
        qed
      qed
    qed
  qed
qed

lemma qa7_loop:
  "\<exists>st. run_loop (step_qa7 decimal) (initial_state []) ps = Inr st
     \<and> (is_question st \<longrightarrow> current_question st \<noteq> [])
     \<and> (is_answer st \<longrightarrow> current_answer st \<noteq> [])
     \<and> length (parsed_questions st) + (if current_question st \<noteq> [] then 1 else 0) =
         count_lines (dotted_index_match decimal) ps
     \<and> length (parsed_answers st) + (if current_answer st \<noteq> [] then 1 else 0) =
         count_lines (\<lambda>l. \<not> dotted_index_match decimal l \<and> startswith l answer_keyword) ps"
proof (induction ps rule: rev_induct)
  case Nil
  show ?case by (simp add: initial_state_def count_lines_Nil)
next
  case (snoc p ps)
  then obtain st where run: "run_loop (step_qa7 decimal) (initial_state []) ps = Inr st"
    and fq: "is_question st \<longrightarrow> current_question st \<noteq> []"
    and fa: "is_answer st \<longrightarrow> current_answer st \<noteq> []"
    and kq: "length (parsed_questions st) + (if current_question st \<noteq> [] then 1 else 0) =
         count_lines (dotted_index_match decimal) ps"
    and ka: "length (parsed_answers st) + (if current_answer st \<noteq> [] then 1 else 0) =
         count_lines (\<lambda>l. \<not> dotted_index_match decimal l \<and> startswith l answer_keyword) ps"
    by auto
  from step_qa7_invariant [OF fq fa, of decimal p] obtain s' where
    "step_qa7 decimal st p = Inr s'"
    "is_question s' \<longrightarrow> current_question s' \<noteq> []"
    "is_answer s' \<longrightarrow> current_answer s' \<noteq> []"
    "length (parsed_questions s') + (if current_question s' \<noteq> [] then 1 else 0) =
         length (parsed_questions st) + (if current_question st \<noteq> [] then 1 else 0)
           + (if dotted_index_match decimal (strip p) then 1 else 0)"
    "length (parsed_answers s') + (if current_answer s' \<noteq> [] then 1 else 0) =
         length (parsed_answers st) + (if current_answer st \<noteq> [] then 1 else 0)
           + (if \<not> dotted_index_match decimal (strip p) \<and> startswith (strip p) answer_keyword
              then 1 else 0)"
    by auto
  with kq ka show ?case
    by (simp add: run_loop_snoc run count_lines_snoc)
qed

lemma qa7_result:
  "\<exists>qs as. process_qa7 decimal ps = Inr (qs, as)
     \<and> length qs = count_lines (dotted_index_match decimal) ps
     \<and> length as =
         count_lines (\<lambda>l. \<not> dotted_index_match decimal l \<and> startswith l answer_keyword) ps"
proof -
  from qa7_loop [of decimal ps] obtain st where
    run: "run_loop (step_qa7 decimal) (initial_state []) ps = Inr st"
    and kq: "length (parsed_questions st) + (if current_question st \<noteq> [] then 1 else 0) =
         count_lines (dotted_index_match decimal) ps"
    and ka: "length (parsed_answers st) + (if current_answer st \<noteq> [] then 1 else 0) =
         count_lines (\<lambda>l. \<not> dotted_index_match decimal l \<and> startswith l answer_keyword) ps"
    by auto
  from kq ka show ?thesis
    by (auto simp: process_qa7_def run split: if_splits)
qed

lemma save_to_files_indexed:
  "\<exists>qf af. save_to_files (qs, as) = Inr (qf, af)
     \<and> length qf = length qs \<and> length af = length as
     \<and> (\<forall>i < length qs. qf ! i = encode_spec (Suc i) @ bracket_space @ qs ! i @ [10, 10])
     \<and> (\<forall>i < length as. af ! i = encode_spec (Suc i) @ bracket_space @ as ! i @ [10, 10])
     \<and> indexed_run tibetan_index qf \<and> indexed_run tibetan_index af"
proof -
  from write_entries_from [of 0 qs] obtain qf where qf: "write_entries 1 qs = Inr qf"
    and lq: "length qf = length qs"
    and iq: "\<forall>i < length qs. qf ! i = encode_spec (Suc i) @ bracket_space @ qs ! i @ [10, 10]"
    by auto
  from write_entries_from [of 0 as] obtain af where af: "write_entries 1 as = Inr af"
    and la: "length af = length as"
    and ia: "\<forall>i < length as. af ! i = encode_spec (Suc i) @ bracket_space @ as ! i @ [10, 10]"
    by auto
  from lq iq have "indexed_run tibetan_index qf"
    by (simp add: indexed_run_def startswith_tibetan_index)
  moreover from la ia have "indexed_run tibetan_index af"
    by (simp add: indexed_run_def startswith_tibetan_index)
  ultimately show ?thesis
    using qf af lq la iq ia by (simp add: save_to_files_def)
qed

subsection \<open>Variant G: the entries of html_parser.py\<close>

lemma startswith_tibetan_index_space: "startswith (tibetan_index n @ t) (tibetan_index n)"
  by (rule startswith_append)

lemma step_html_invariant:
  assumes qi: "question_index s = int (length (html_questions s)) + 1"
    and ai: "answer_index s = int (length (html_answers s)) + 1"
    and iq: "indexed_run tibetan_index (html_questions s)"
    and ia: "indexed_run tibetan_index (html_answers s)"
  shows "\<exists>s'. step_html s x = Inr s'
     \<and> question_index s' = int (length (html_questions s')) + 1
     \<and> answer_index s' = int (length (html_answers s')) + 1
     \<and> indexed_run tibetan_index (html_questions s')
     \<and> indexed_run tibetan_index (html_answers s')
     \<and> length (html_questions s') + length (html_answers s') =
         length (html_questions s) + length (html_answers s) + (if x = None then 0 else 1)"
proof (cases x)
  case None
  with assms show ?thesis by (simp add: step_html_def)
next
  case (Some span_text)
  show ?thesis
  proof (cases "contains (strip span_text) answer_keyword")
    case True
    with Some assms show ?thesis
      by (simp add: step_html_def Let_def convert_to_tibetan_number_succ indexed_run_snoc
          startswith_tibetan_index_space)
  next
    case False
    with Some assms show ?thesis
      by (simp add: step_html_def Let_def convert_to_tibetan_number_succ indexed_run_snoc
          startswith_tibetan_index_space)
  qed
qed

lemma html_result:
  "\<exists>qs as. parse_html ps = Inr (qs, as)
     \<and> indexed_run tibetan_index qs \<and> indexed_run tibetan_index as
     \<and> length qs + length as = length (filter (\<lambda>x. x \<noteq> None) ps)"
proof -
  have "\<exists>st. run_loop step_html
             \<lparr>html_questions = [], html_answers = [], question_index = 1, answer_index = 1\<rparr> ps
           = Inr st
     \<and> question_index st = int (length (html_questions st)) + 1
     \<and> answer_index st = int (length (html_answers st)) + 1
     \<and> indexed_run tibetan_index (html_questions st)
     \<and> indexed_run tibetan_index (html_answers st)
     \<and> length (html_questions st) + length (html_answers st) =
         length (filter (\<lambda>x. x \<noteq> None) ps)"
  proof (induction ps rule: rev_induct)
    case Nil
    show ?case by (simp add: indexed_run_Nil)
  next
    case (snoc x ps)
    then obtain st where run: "run_loop step_html
             \<lparr>html_questions = [], html_answers = [], question_index = 1, answer_index = 1\<rparr> ps
           = Inr st"
      and qi: "question_index st = int (length (html_questions st)) + 1"
      and ai: "answer_index st = int (length (html_answers st)) + 1"
      and iq: "indexed_run tibetan_index (html_questions st)"
      and ia: "indexed_run tibetan_index (html_answers st)"
      and n: "length (html_questions st) + length (html_answers st) =
         length (filter (\<lambda>x. x \<noteq> None) ps)"
      by auto
    from step_html_invariant [OF qi ai iq ia, of x] n show ?case
      by (auto simp: run_loop_snoc run)
  qed
  then show ?thesis by (auto simp: parse_html_def)
qed

section \<open>Counts, indices and the last record\<close>

lemmas eval_defs = strip_def lstrip_def rstrip_def isspace_def tib_digit_def tib_letter_def
  startswith_def Let_def initial_state_def bracket_space_def closing_glyph_def truthy_def
  str_int_def str_nat.simps int_of_char_def index_def TIBETAN_DIGITS_def
  int_to_tibetan_numeral_def int_to_tibetan_def convert_to_tibetan_number_def count_lines_def

lemma index_space_tibetan: "encode_spec n @ bracket_space @ t = tibetan_index n @ [32] @ t"
  by (simp add: bracket_space_def tibetan_index_def closing_glyph_def)


text \<open>C1, as the code has it. With \<open>k\<close> the number of question lines of a stream:
  variant A and variant E emit exactly \<open>k\<close> pairs; variant F emits \<open>k\<close> question entries
  and one answer entry for each line that starts with the answer keyword; variant C emits
  one pair for each question line whose text after the first shad is not empty, hence
  \<open>k\<close> pairs when every question line has such a text. Variant B closes a record only
  when its answer buffer is not empty: on a stream that starts with a question line and in
  which every question line but the last is followed, before the next question line, by a
  line that starts with the answer keyword, it emits \<open>k\<close> pairs when the last question
  line is followed by such a line too, and \<open>k - 1\<close> pairs otherwise.\<close>

theorem pair_count:
  "(\<exists>qs as. parse_docx_qa2 ps = Inr (qs, as)
      \<and> length qs = count_lines initial_number_match ps \<and> length as = length qs)
   \<and> (\<exists>qs as. process_docx_qa6 ps = Inr (qs, as)
      \<and> length qs = count_lines (\<lambda>l. question_pattern_search l \<noteq> None) ps
      \<and> length as = length qs)
   \<and> (\<exists>qs as. process_qa7 decimal ps = Inr (qs, as)
      \<and> length qs = count_lines (dotted_index_match decimal) ps
      \<and> length as =
          count_lines (\<lambda>l. \<not> dotted_index_match decimal l \<and> startswith l answer_keyword) ps)
   \<and> length (fst (parse_docx_qa4 ps)) =
        count_lines (\<lambda>l. question_start_match l \<and> clean_question_text_qa4 l \<noteq> []) ps
   \<and> length (snd (parse_docx_qa4 ps)) = length (fst (parse_docx_qa4 ps))
   \<and> ((\<forall>p \<in> set ps. question_start_match (strip p) \<longrightarrow> clean_question_text_qa4 (strip p) \<noteq> [])
        \<longrightarrow> length (fst (parse_docx_qa4 ps)) = count_lines question_start_match ps)
   \<and> ((\<forall>seg \<in> set segs. question_number_match (strip (fst seg))
             \<and> (\<forall>p \<in> set (snd seg). \<not> question_number_match (strip p)))
        \<and> (\<forall>seg \<in> set (butlast segs). answered_qa3 (snd seg))
        \<longrightarrow> (\<exists>qs as. parse_docx_qa3 (stream_of segs) = Inr (qs, as)
              \<and> length as = length qs
              \<and> count_lines question_number_match (stream_of segs) = length segs
              \<and> length qs = (if segs \<noteq> [] \<and> answered_qa3 (snd (last segs))
                             then length segs else length segs - 1)))"
proof -
  have a: "\<exists>qs as. parse_docx_qa2 ps = Inr (qs, as)
      \<and> length qs = count_lines initial_number_match ps \<and> length as = length qs"
    using qa2_result [of ps] by auto
  have e: "\<exists>qs as. process_docx_qa6 ps = Inr (qs, as)
      \<and> length qs = count_lines (\<lambda>l. question_pattern_search l \<noteq> None) ps
      \<and> length as = length qs"
    using qa6_result [of ps] by auto
  note f = qa7_result [of decimal ps]
  have c1: "length (fst (parse_docx_qa4 ps)) =
        count_lines (\<lambda>l. question_start_match l \<and> clean_question_text_qa4 l \<noteq> []) ps"
    and c2: "length (snd (parse_docx_qa4 ps)) = length (fst (parse_docx_qa4 ps))"
    using qa4_result [of ps] by simp_all
  have c3: "(\<forall>p \<in> set ps. question_start_match (strip p) \<longrightarrow> clean_question_text_qa4 (strip p) \<noteq> [])
        \<longrightarrow> length (fst (parse_docx_qa4 ps)) = count_lines question_start_match ps"
  proof
    assume h: "\<forall>p \<in> set ps. question_start_match (strip p) \<longrightarrow> clean_question_text_qa4 (strip p) \<noteq> []"
    have "filter (\<lambda>p. question_start_match (strip p) \<and> clean_question_text_qa4 (strip p) \<noteq> []) ps
        = filter (\<lambda>p. question_start_match (strip p)) ps"
      by (rule filter_cong [OF refl]) (use h in auto)
    then show "length (fst (parse_docx_qa4 ps)) = count_lines question_start_match ps"
      by (simp add: c1 count_lines_def)
  qed
  have b: "(\<forall>seg \<in> set segs. question_number_match (strip (fst seg))
             \<and> (\<forall>p \<in> set (snd seg). \<not> question_number_match (strip p)))
        \<and> (\<forall>seg \<in> set (butlast segs). answered_qa3 (snd seg))
        \<longrightarrow> (\<exists>qs as. parse_docx_qa3 (stream_of segs) = Inr (qs, as)
              \<and> length as = length qs
              \<and> count_lines question_number_match (stream_of segs) = length segs
              \<and> length qs = (if segs \<noteq> [] \<and> answered_qa3 (snd (last segs))
                             then length segs else length segs - 1))"
  proof
    assume h: "(\<forall>seg \<in> set segs. question_number_match (strip (fst seg))
             \<and> (\<forall>p \<in> set (snd seg). \<not> question_number_match (strip p)))
        \<and> (\<forall>seg \<in> set (butlast segs). answered_qa3 (snd seg))"
    then have h1: "\<forall>seg \<in> set segs. question_number_match (strip (fst seg))
             \<and> (\<forall>p \<in> set (snd seg). \<not> question_number_match (strip p))"
      and h2: "\<forall>seg \<in> set (butlast segs). answered_qa3 (snd seg)" by simp_all
    have k: "count_lines question_number_match (stream_of segs) = length segs"
      by (rule count_lines_stream_of) (rule h1)
    from qa3_well_formed [OF h1 h2] show "\<exists>qs as. parse_docx_qa3 (stream_of segs) = Inr (qs, as)
              \<and> length as = length qs
              \<and> count_lines question_number_match (stream_of segs) = length segs
              \<and> length qs = (if segs \<noteq> [] \<and> answered_qa3 (snd (last segs))
                             then length segs else length segs - 1)"
      unfolding k by simp
  qed
  from a e f c1 c2 c3 b show ?thesis by blast
qed

text \<open>C1 as stated fails under variant B: of two question lines, the second followed by
  an answer line, one pair is emitted, and its answer is not empty.\<close>

theorem pair_count_counterexample:
  "count_lines question_number_match
     [[3873, 32, 3904], [3874, 32, 3905], [3939, 3923, 3853, 32, 3906]] = 2
   \<and> parse_docx_qa3 [[3873, 32, 3904], [3874, 32, 3905], [3939, 3923, 3853, 32, 3906]]
       = Inr ([[3873, 3901, 32, 3905]], [[3873, 3901, 32, 3906]])"
  by (simp add: parse_docx_qa3_def step_qa3_def emit_qa3_def question_number_match_def
      answer_prefix_qa3_def clean_question_text_qa3_def question_number_sub_def eval_defs)

theorem pair_count_witness:
  "question_number_match (strip [3873, 32, 3904])
   \<and> \<not> question_number_match (strip [3939, 3923, 3853, 32, 3906])
   \<and> question_number_match (strip [3874, 32, 3905])
   \<and> answered_qa3 [[3939, 3923, 3853, 32, 3906]]
   \<and> \<not> answered_qa3 []
   \<and> (\<exists>qs as. parse_docx_qa3
          (stream_of [([3873, 32, 3904], [[3939, 3923, 3853, 32, 3906]]), ([3874, 32, 3905], [])])
          = Inr (qs, as) \<and> length qs = 1 \<and> length as = 1)
   \<and> count_lines question_number_match
          (stream_of [([3873, 32, 3904], [[3939, 3923, 3853, 32, 3906]]), ([3874, 32, 3905], [])])
        = 2
   \<and> question_start_match (strip [3848, 3904, 3853, 3905])
   \<and> clean_question_text_qa4 (strip [3848, 3904, 3853, 3905]) \<noteq> []
   \<and> length (fst (parse_docx_qa4 [[3848, 3904, 3853, 3905]])) = 1"
proof -
  have s: "strip [3873, 32, 3904] = [3873, 32, 3904]"
    "strip [3939, 3923, 3853, 32, 3906] = [3939, 3923, 3853, 32, 3906]"
    "strip [3874, 32, 3905] = [3874, 32, 3905]"
    "strip [3848, 3904, 3853, 3905] = [3848, 3904, 3853, 3905]"
    by (simp_all add: eval_defs)
  have m: "question_number_match [3873, 32, 3904]"
    "\<not> question_number_match [3939, 3923, 3853, 32, 3906]"
    "question_number_match [3874, 32, 3905]"
    by (simp_all add: question_number_match_def eval_defs)
  have an: "answered_qa3 [[3939, 3923, 3853, 32, 3906]]" "\<not> answered_qa3 []"
    by (simp_all add: answered_qa3_def s answer_prefix_qa3_def startswith_def)
  have c: "question_start_match [3848, 3904, 3853, 3905]"
    "clean_question_text_qa4 [3848, 3904, 3853, 3905] \<noteq> []"
    by (simp_all add: question_start_match_def clean_question_text_qa4_def shey_character_def eval_defs)
  have cl: "count_lines question_start_match [[3848, 3904, 3853, 3905]] = 1"
    by (simp add: count_lines_def s c)
  let ?P = "[[3848, 3904, 3853, 3905::nat]]"
  let ?S = "[([3873, 32, 3904], [[3939, 3923, 3853, 32, 3906]]), ([3874, 32, 3905], [])]
             :: (ustr \<times> ustr list) list"
  note pc = pair_count [where ps = ?P and segs = ?S]
  have wf: "(\<forall>seg \<in> set ?S. question_number_match (strip (fst seg))
             \<and> (\<forall>p \<in> set (snd seg). \<not> question_number_match (strip p)))
        \<and> (\<forall>seg \<in> set (butlast ?S). answered_qa3 (snd seg))"
    by (simp add: s m an)
  from pc wf have "\<exists>qs as. parse_docx_qa3 (stream_of ?S) = Inr (qs, as)
              \<and> length as = length qs
              \<and> count_lines question_number_match (stream_of ?S) = length ?S
              \<and> length qs = (if ?S \<noteq> [] \<and> answered_qa3 (snd (last ?S))
                             then length ?S else length ?S - 1)"
    by blast
  then have r: "(\<exists>qs as. parse_docx_qa3 (stream_of ?S) = Inr (qs, as)
        \<and> length qs = 1 \<and> length as = 1)
      \<and> count_lines question_number_match (stream_of ?S) = 2"
    by (auto simp: an)
  have hc: "\<forall>p \<in> set ?P. question_start_match (strip p) \<longrightarrow> clean_question_text_qa4 (strip p) \<noteq> []"
    by (simp add: s c)
  from pc hc have "length (fst (parse_docx_qa4 ?P)) = count_lines question_start_match ?P"
    by blast
  with cl have r4: "length (fst (parse_docx_qa4 ?P)) = 1" by simp
  from r r4 show ?thesis by (simp add: s m an c)
qed

text \<open>C2. In every variant the entries emitted for a document carry the indices
  1, 2, \<dots>, k in the order of emission: entry \<open>i\<close> (from zero) starts with the numeral of
  \<open>i + 1\<close> and the closing bracket, whatever the paragraphs hold, so no numeral of the
  source is used as an index. Questions and answers are numbered alike (qa_7.py and
  html_parser.py number the two lists separately).\<close>

theorem indices_contiguous:
  "(\<exists>qs as. parse_docx_qa2 ps = Inr (qs, as) \<and> length as = length qs
      \<and> indexed_run tibetan_index qs \<and> indexed_run tibetan_index as)
   \<and> (\<exists>qs as. parse_docx_qa3 ps = Inr (qs, as) \<and> length as = length qs
      \<and> indexed_run tibetan_index qs \<and> indexed_run tibetan_index as)
   \<and> (length (snd (parse_docx_qa4 ps)) = length (fst (parse_docx_qa4 ps))
      \<and> indexed_run arabic_index (fst (parse_docx_qa4 ps))
      \<and> indexed_run arabic_index (snd (parse_docx_qa4 ps)))
   \<and> (length (snd (parse_docx_qa5 ps)) = length (fst (parse_docx_qa5 ps))
      \<and> indexed_run arabic_index (fst (parse_docx_qa5 ps))
      \<and> indexed_run arabic_index (snd (parse_docx_qa5 ps)))
   \<and> (\<exists>qs as. process_docx_qa6 ps = Inr (qs, as) \<and> length as = length qs
      \<and> indexed_run tibetan_index qs \<and> indexed_run tibetan_index as)
   \<and> (\<exists>qf af. save_to_files (questions, answers) = Inr (qf, af)
      \<and> length qf = length questions \<and> length af = length answers
      \<and> (\<forall>i < length questions.
            qf ! i = tibetan_index (Suc i) @ [32] @ questions ! i @ [10, 10])
      \<and> (\<forall>i < length answers.
            af ! i = tibetan_index (Suc i) @ [32] @ answers ! i @ [10, 10]))
   \<and> (\<exists>qs as. parse_html spans = Inr (qs, as)
      \<and> indexed_run tibetan_index qs \<and> indexed_run tibetan_index as)"
proof -
  have a: "\<exists>qs as. parse_docx_qa2 ps = Inr (qs, as) \<and> length as = length qs
      \<and> indexed_run tibetan_index qs \<and> indexed_run tibetan_index as"
    using qa2_result [of ps] by auto
  note b = qa3_result [of ps]
  have c: "length (snd (parse_docx_qa4 ps)) = length (fst (parse_docx_qa4 ps))
      \<and> indexed_run arabic_index (fst (parse_docx_qa4 ps))
      \<and> indexed_run arabic_index (snd (parse_docx_qa4 ps))"
    using qa4_result [of ps] by simp
  note d = qa5_result [of ps]
  have e: "\<exists>qs as. process_docx_qa6 ps = Inr (qs, as) \<and> length as = length qs
      \<and> indexed_run tibetan_index qs \<and> indexed_run tibetan_index as"
    using qa6_result [of ps] by auto
  have f: "\<exists>qf af. save_to_files (questions, answers) = Inr (qf, af)
      \<and> length qf = length questions \<and> length af = length answers
      \<and> (\<forall>i < length questions.
            qf ! i = tibetan_index (Suc i) @ [32] @ questions ! i @ [10, 10])
      \<and> (\<forall>i < length answers.
            af ! i = tibetan_index (Suc i) @ [32] @ answers ! i @ [10, 10])"
    using save_to_files_indexed [of questions answers]
    by (auto simp: index_space_tibetan)
  have g: "\<exists>qs as. parse_html spans = Inr (qs, as)
      \<and> indexed_run tibetan_index qs \<and> indexed_run tibetan_index as"
    using html_result [of spans] by auto
  from a b c d e f g show ?thesis by blast
qed

theorem indices_contiguous_witness:
  "parse_docx_qa2 [[3877, 32, 3904], [3905], [3881, 3901, 32, 3873, 32, 3906]]
     = Inr ([[3873, 3901, 32, 3904], [3874, 3901, 32, 3901, 32, 3906]],
            [[3873, 3901, 32, 3905], [3874, 3901, 32]])
   \<and> indexed_run tibetan_index [[3873, 3901, 32, 3904], [3874, 3901, 32, 3901, 32, 3906]]
   \<and> indexed_run tibetan_index [[3873, 3901, 32, 3905], [3874, 3901, 32]]
   \<and> tibetan_index 1 = [3873, 3901] \<and> tibetan_index 2 = [3874, 3901]"
proof -
  have e: "parse_docx_qa2 [[3877, 32, 3904], [3905], [3881, 3901, 32, 3873, 32, 3906]]
     = Inr ([[3873, 3901, 32, 3904], [3874, 3901, 32, 3901, 32, 3906]],
            [[3873, 3901, 32, 3905], [3874, 3901, 32]])"
    by (simp add: parse_docx_qa2_def step_qa2_def process_current_qa_qa2_def
      initial_number_match_def initial_number_sub_def clean_question_text_qa2_def
      remove_answer_prefix_def answer_prefix_qa2_def eval_defs)
  have t: "tibetan_index 1 = [3873, 3901]" "tibetan_index 2 = [3874, 3901]"
    by (simp_all add: tibetan_index_def encode_spec_def base10_digits.simps eval_defs)
  from indices_contiguous [where ps = "[[3877, 32, 3904], [3905], [3881, 3901, 32, 3873, 32, 3906]]"]
  have "indexed_run tibetan_index [[3873, 3901, 32, 3904], [3874, 3901, 32, 3901, 32, 3906]]
      \<and> indexed_run tibetan_index [[3873, 3901, 32, 3905], [3874, 3901, 32]]"
    by (simp add: e)
  with e t show ?thesis by simp
qed







end
